theory Spec2Isabelle
  imports Main "HOL-Library.Word" "HOL-Library.Multiset"
begin

section \<open>Data model\<close>

text \<open>
  The fields of a \<open>drive.File\<close> that the listing call requests
  (\<open>id, name, size, modifiedTime, mimeType\<close>), and one page of a listing
  (\<open>drive.FileList\<close>): its files and the continuation token.
\<close>

record drive_file =
  Id :: string
  Name_f :: string
  Size_f :: int
  ModifiedTime_f :: string
  MimeType_f :: string

record file_list =
  Files :: "drive_file list"
  NextPageToken :: string

text \<open>
  \<open>database.FileRecord\<close>, \<open>ScanConfig\<close> and the counters of \<open>Stats\<close>. The two
  fields of \<open>FileRecord\<close> that share a name with a field of \<open>ScanConfig\<close> carry the
  suffix \<open>_r\<close>. The counters are \<open>atomic.Int64\<close>; they only ever grow by one or by
  a batch length, far from \<open>2 ^ 63\<close>, and are integers here. \<open>Stats.TeamDriveName\<close>
  and \<open>Stats.StartTime\<close> are written once and only printed; they are left out.
\<close>

record FileRecord =
  ID :: string
  Name :: string
  ParentID :: string
  TeamDriveID_r :: string
  TeamDriveName_r :: string
  Size :: int
  ModifiedTime :: string
  MimeType :: string
  IsFolder :: bool
  Path :: string
  TotalSize :: int
  ChildCount :: int

record ScanConfig =
  TeamDriveID :: string
  TeamDriveName :: string
  WorkersPerAccount :: int
  PageSize :: int
  BatchInsertSize :: int

record Stats =
  FilesProcessed :: int
  FoldersQueued :: int
  APICallsTotal :: int
  APICallsSuccess :: int
  APICallsFailed :: int
  DBInserts :: int

text \<open>
  What \<open>call.Do()\<close> can fail with: a \<open>*googleapi.Error\<close> carrying a status code,
  or any other error. The errors that \<open>executeWithRetry\<close> and \<open>listFolder\<close> return
  are an error of the call, the error built by \<open>fmt.Errorf("max retries exceeded")\<close>,
  or the error of \<open>limiter.Wait\<close>.
\<close>

datatype api_error = GoogleApiError int | OtherError string

datatype error = CallError api_error | MaxRetriesExceeded | WaitError string

section \<open>The retry executor\<close>

text \<open>
  The effects of \<open>executeWithRetry\<close>, in the order they happen: an invocation of
  \<open>call.Do()\<close> (with the value of \<open>attempt\<close>), a \<open>time.Sleep\<close> (in nanoseconds) and
  the "Rate limit, waiting" log line (with the delay it prints).
\<close>

datatype effect = Attempt nat | Sleep int | LogRateLimit int

definition maxRetries :: nat where
  "maxRetries = 5"

text \<open>\<open>time.Second\<close>, a \<open>time.Duration\<close> in nanoseconds.\<close>

definition baseDelay :: int where
  "baseDelay = 1000000000"

text \<open>
  \<open>baseDelay * time.Duration(1 << uint(attempt))\<close>. The loop keeps \<open>attempt\<close> below
  5, so the shift and the product stay far below \<open>2 ^ 63\<close> and no wrap-around occurs.
\<close>

definition backoff :: "nat \<Rightarrow> int" where
  "backoff attempt = baseDelay * 2 ^ attempt"

definition rate_limited :: "api_error \<Rightarrow> bool" where
  "rate_limited err = (case err of GoogleApiError code \<Rightarrow> code = 403 \<or> code = 429 | OtherError _ \<Rightarrow> False)"

text \<open>
  The loop \<open>for attempt := 0; attempt < maxRetries; attempt++\<close>. The call is given as
  the outcome of its \<open>k\<close>-th invocation (each pass of the loop invokes it once, so the
  invocation made at \<open>attempt = k\<close> is the \<open>k\<close>-th). The result is the trace of effects
  and the returned pair, \<open>Inr\<close> for \<open>(fileList, nil)\<close> and \<open>Inl\<close> for \<open>(nil, err)\<close>.
\<close>

function retry_loop :: "(nat \<Rightarrow> api_error + file_list) \<Rightarrow> nat \<Rightarrow> effect list \<times> (error + file_list)" where
  "retry_loop call attempt =
     (if attempt < maxRetries then
        (case call attempt of
           Inr fileList \<Rightarrow> ([Attempt attempt], Inr fileList)
         | Inl err \<Rightarrow>
             (if rate_limited err then
                (let delay = backoff attempt;
                     (tr, res) = retry_loop call (attempt + 1)
                 in (Attempt attempt # LogRateLimit delay # Sleep delay # tr, res))
              else if attempt < maxRetries - 1 then
                (let delay = backoff attempt;
                     (tr, res) = retry_loop call (attempt + 1)
                 in (Attempt attempt # Sleep delay # tr, res))
              else ([Attempt attempt], Inl (CallError err))))
      else ([], Inl MaxRetriesExceeded))"
  by pat_completeness auto
termination
  by (relation "measure (\<lambda>(call, attempt). maxRetries - attempt)") auto

declare retry_loop.simps [simp del]

definition executeWithRetry :: "(nat \<Rightarrow> api_error + file_list) \<Rightarrow> effect list \<times> (error + file_list)" where
  "executeWithRetry call = retry_loop call 0"

fun is_attempt :: "effect \<Rightarrow> bool" where
  "is_attempt (Attempt _) = True"
| "is_attempt _ = False"

fun sleeps_of :: "effect list \<Rightarrow> int list" where
  "sleeps_of [] = []"
| "sleeps_of (Sleep d # es) = d # sleeps_of es"
| "sleeps_of (_ # es) = sleeps_of es"

fun is_log :: "effect \<Rightarrow> bool" where
  "is_log (LogRateLimit _) = True"
| "is_log _ = False"

text \<open>The trace without its log lines: what the loop did apart from logging.\<close>

definition unlogged :: "effect list \<Rightarrow> effect list" where
  "unlogged es = filter (\<lambda>e. \<not> is_log e) es"

definition attempts_of :: "effect list \<Rightarrow> nat" where
  "attempts_of es = length (filter is_attempt es)"

section \<open>The storage: the table \<open>files\<close> and \<open>BatchInsert\<close>\<close>

text \<open>
  A row of the table \<open>files\<close>, without its primary key \<open>id\<close>: the ten columns the
  insert statement names (less \<open>id\<close>) and \<open>created_at\<close>, which the statement leaves to
  its default \<open>CURRENT_TIMESTAMP\<close>. The table is declared with \<open>id TEXT PRIMARY KEY\<close>,
  so it holds at most one row for an id: it is a map from ids to rows. The contents of
  the full-text table \<open>files_fts\<close> are not modelled; what its triggers do to the insert
  statement is (see \<open>program_db\<close> below).
\<close>

record row =
  c_name :: string
  c_parent_id :: string
  c_teamdrive_id :: string
  c_teamdrive_name :: string
  c_size :: int
  c_modified_time :: string
  c_mime_type :: string
  c_is_folder :: bool
  c_path :: string
  c_created_at :: nat

type_synonym files_table = "string \<rightharpoonup> row"

text \<open>
  What the database does during one call of \<open>BatchInsert\<close>: the errors (if any) of
  \<open>db.Begin\<close>, \<open>tx.Prepare\<close> and \<open>tx.Commit\<close>, the error of \<open>stmt.Exec\<close> for the
  record at a position of the batch, and the clock that \<open>CURRENT_TIMESTAMP\<close> reads.
\<close>

record db_env =
  begin_err :: "string option"
  prepare_err :: "string option"
  exec_err :: "nat \<Rightarrow> FileRecord \<Rightarrow> string option"
  commit_err :: "string option"
  clock :: nat


text \<open>
  \<open>INSERT OR REPLACE INTO files (id, name, ...) VALUES (?, ...)\<close> for one record, where
  the statement runs: the row of that id is replaced when there is one, and inserted
  otherwise.
\<close>

definition row_of :: "nat \<Rightarrow> FileRecord \<Rightarrow> row" where
  "row_of now r =
     \<lparr>c_name = Name r, c_parent_id = ParentID r, c_teamdrive_id = TeamDriveID_r r,
      c_teamdrive_name = TeamDriveName_r r, c_size = Size r,
      c_modified_time = ModifiedTime r, c_mime_type = MimeType r,
      c_is_folder = IsFolder r, c_path = Path r, c_created_at = now\<rparr>"

definition insert_or_replace :: "nat \<Rightarrow> FileRecord \<Rightarrow> files_table \<Rightarrow> files_table" where
  "insert_or_replace now r t = t(ID r \<mapsto> row_of now r)"

text \<open>
  The loop \<open>for _, record := range records\<close> of \<open>BatchInsert\<close>, from position \<open>i\<close> of
  the batch: a failed \<open>stmt.Exec\<close> is logged (the record's name) and the loop goes on.
  The result is the table inside the transaction and the log lines.
\<close>

fun exec_all :: "db_env \<Rightarrow> nat \<Rightarrow> FileRecord list \<Rightarrow> files_table \<Rightarrow> files_table \<times> string list" where
  "exec_all d i [] t = (t, [])"
| "exec_all d i (r # rs) t =
     (case exec_err d i r of
        Some e \<Rightarrow> (let (t', lg) = exec_all d (i + 1) rs t in (t', Name r # lg))
      | None \<Rightarrow> exec_all d (i + 1) rs (insert_or_replace (clock d) r t))"

text \<open>
  \<open>BatchInsert\<close>: the returned error (\<open>None\<close> for \<open>nil\<close>), the table afterwards and the
  "Insert failed" log lines. A failed \<open>Begin\<close> or \<open>Prepare\<close> (followed by
  \<open>tx.Rollback()\<close>) and a failed \<open>Commit\<close> leave the table as it was.
\<close>

definition BatchInsert :: "db_env \<Rightarrow> FileRecord list \<Rightarrow> files_table \<Rightarrow> string option \<times> files_table \<times> string list" where
  "BatchInsert d records t =
     (case begin_err d of
        Some e \<Rightarrow> (Some e, t, [])
      | None \<Rightarrow>
          (case prepare_err d of
             Some e \<Rightarrow> (Some e, t, [])
           | None \<Rightarrow>
               (let (t', lg) = exec_all d 0 records t
                in (case commit_err d of
                      Some e \<Rightarrow> (Some e, t, lg)
                    | None \<Rightarrow> (None, t', lg)))))"

text \<open>The stored rows as the ten columns of a record, without \<open>created_at\<close>.\<close>

definition columns :: "files_table \<Rightarrow> string \<rightharpoonup> row" where
  "columns t = (\<lambda>k. map_option (\<lambda>rw. rw\<lparr>c_created_at := 0\<rparr>) (t k))"

section \<open>The credential pool\<close>

text \<open>
  \<open>ServiceAccountPool\<close>: the services and limiters are opaque handles, numbered here;
  \<open>current\<close> is an \<open>atomic.Int32\<close>.
\<close>

record ServiceAccountPool =
  services :: "nat list"
  limiters :: "nat list"
  current :: "32 word"

text \<open>
  Go's \<open>%\<close> on integers truncates towards zero: the remainder has the sign of the
  dividend.
\<close>

definition go_rem :: "int \<Rightarrow> int \<Rightarrow> int" where
  "go_rem a b = sgn a * (\<bar>a\<bar> mod \<bar>b\<bar>)"

text \<open>
  \<open>getNext\<close>: \<open>p.current.Add(1)\<close> adds one to the 32-bit counter, wrapping around, and
  returns the new value; \<open>int(...)\<close> reads it as a signed number. The result is the new
  counter and the pair \<open>(p.services[idx], p.limiters[idx])\<close>, or \<open>None\<close> where Go
  panics: a division by zero for an empty pool, an index out of range otherwise.
\<close>

definition getNext :: "ServiceAccountPool \<Rightarrow> 32 word \<times> (nat \<times> nat) option" where
  "getNext p =
     (let c = current p + 1 in
      if length (services p) = 0 then (c, None)
      else (let idx = go_rem (sint c) (int (length (services p))) in
            if 0 \<le> idx \<and> nat idx < length (services p) \<and> nat idx < length (limiters p)
            then (c, Some (services p ! nat idx, limiters p ! nat idx))
            else (c, None)))"

text \<open>\<open>InitServiceAccountPool\<close> appends to both slices together and starts the counter at 0.\<close>

definition pool_of :: "nat \<Rightarrow> ServiceAccountPool" where
  "pool_of n = \<lparr>services = [0 ..< n], limiters = [0 ..< n], current = 0\<rparr>"

text \<open>The counter after \<open>n\<close> calls of \<open>getNext\<close>.\<close>

fun getNext_times :: "nat \<Rightarrow> ServiceAccountPool \<Rightarrow> ServiceAccountPool" where
  "getNext_times 0 p = p"
| "getNext_times (Suc n) p = getNext_times n (p\<lparr>current := fst (getNext p)\<rparr>)"

section \<open>The crawl: shared state\<close>

text \<open>
  The upstream API and the rate limiters, as the crawl sees them: the error of
  \<open>limiter.Wait\<close> (\<open>None\<close> for \<open>nil\<close>) for a limiter, a folder and a page token, and the
  outcome of the \<open>k\<close>-th invocation of \<open>call.Do()\<close> for a service, a folder and a page
  token. The storage is given by what the database does during the \<open>n\<close>-th call of
  \<open>BatchInsert\<close>.
\<close>

record env =
  wait :: "nat \<Rightarrow> string \<Rightarrow> string \<Rightarrow> string option"
  do_call :: "nat \<Rightarrow> string \<Rightarrow> string \<Rightarrow> nat \<Rightarrow> api_error + file_list"
  db :: "nat \<Rightarrow> db_env"

datatype main_pc = MainSend | MainWait | MainRecvDone | MainReturned

datatype worker_pc = WRanging | WExited

text \<open>
  Everything one run of \<open>ScanTeamDrive\<close> shares between its goroutines:
  \<^item> \<open>stats\<close> and \<open>pool\<close>;
  \<^item> the two channels as their buffers, with a flag for \<open>close\<close>, and the counter of
    the \<open>sync.WaitGroup\<close>;
  \<^item> \<open>senders\<close>: the goroutines \<open>go func(id string) { w.jobQueue <- id }(file.Id)\<close>
    that have been started and have not delivered their id yet;
  \<^item> where \<open>ScanTeamDrive\<close> itself and each worker stand, and whether the process has
    panicked;
  \<^item> the sink's \<open>batch\<close>, the table \<open>files\<close>, the number of calls of \<open>BatchInsert\<close>
    made so far, and whether \<open>dbDone\<close> has been closed;
  \<^item> history variables, which no code reads: \<open>entered\<close> (every id sent on the job
    queue), \<open>emitted\<close> (every record sent on the result queue), \<open>writes\<close> (every batch
    passed to \<open>BatchInsert\<close>), \<open>effects\<close> (what the retry executor did) and \<open>logs\<close>
    (the log lines of the sink and of \<open>BatchInsert\<close>).
\<close>

record state =
  stats :: Stats
  pool :: ServiceAccountPool
  jobQueue :: "string list"
  jobClosed :: bool
  resultQueue :: "FileRecord list"
  resultClosed :: bool
  wg :: int
  senders :: "string list"
  main :: main_pc
  workers :: "worker_pc list"
  panicked :: bool
  batch :: "FileRecord list"
  files :: files_table
  nflush :: nat
  dbDone :: bool
  entered :: "string list"
  emitted :: "FileRecord list"
  writes :: "FileRecord list list"
  effects :: "effect list"
  logs :: "string list"

section \<open>Listing one folder\<close>

definition folder_mime :: string where
  "folder_mime = ''application/vnd.google-apps.folder''"

definition mk_record :: "ScanConfig \<Rightarrow> string \<Rightarrow> drive_file \<Rightarrow> FileRecord" where
  "mk_record config folderID file =
     \<lparr>ID = Id file, Name = Name_f file, ParentID = folderID,
      TeamDriveID_r = TeamDriveID config, TeamDriveName_r = TeamDriveName config,
      Size = Size_f file, ModifiedTime = ModifiedTime_f file, MimeType = MimeType_f file,
      IsFolder = (MimeType_f file = folder_mime), Path = Name_f file,
      TotalSize = 0, ChildCount = 0\<rparr>"

text \<open>
  The body of \<open>for _, file := range fileList.Files\<close> for one file: the record is sent
  on the result queue and \<open>FilesProcessed\<close> is incremented, whatever the item is; for a
  folder, \<open>FoldersQueued\<close> is incremented, \<open>wg.Add(1)\<close> is called and a goroutine is
  started that will send the id on the job queue.
\<close>

definition process_file :: "ScanConfig \<Rightarrow> string \<Rightarrow> drive_file \<Rightarrow> state \<Rightarrow> state" where
  "process_file config folderID file s =
     (let record = mk_record config folderID file;
          s1 = s\<lparr>resultQueue := resultQueue s @ [record], emitted := emitted s @ [record],
                 stats := (stats s)\<lparr>FilesProcessed := FilesProcessed (stats s) + 1\<rparr>\<rparr>
      in if IsFolder record then
           s1\<lparr>stats := (stats s1)\<lparr>FoldersQueued := FoldersQueued (stats s1) + 1\<rparr>,
              wg := wg s1 + 1, senders := senders s1 @ [Id file]\<rparr>
         else s1)"

fun process_files :: "ScanConfig \<Rightarrow> string \<Rightarrow> drive_file list \<Rightarrow> state \<Rightarrow> state" where
  "process_files config folderID [] s = s"
| "process_files config folderID (file # rest) s =
     process_files config folderID rest (process_file config folderID file s)"

text \<open>
  One pass of the page loop \<open>for { ... }\<close> of \<open>listFolder\<close>, with the service and
  limiter that \<open>getNext\<close> gave: \<open>limiter.Wait\<close>, the increment of \<open>APICallsTotal\<close>,
  the call through \<open>executeWithRetry\<close>, the increment of \<open>APICallsSuccess\<close> and the
  files of the page. The pass ends \<open>listFolder\<close> with an error or with \<open>nil\<close> (at an
  empty \<open>NextPageToken\<close>), or goes on with the next page token.
\<close>

datatype page_result = Stop "error option" state | Next string state

definition list_page :: "env \<Rightarrow> ScanConfig \<Rightarrow> nat \<times> nat \<Rightarrow> string \<Rightarrow> string \<Rightarrow> state \<Rightarrow> page_result" where
  "list_page e config sl folderID pageToken s =
     (case wait e (snd sl) folderID pageToken of
        Some err \<Rightarrow> Stop (Some (WaitError err)) s
      | None \<Rightarrow>
          (let s1 = s\<lparr>stats := (stats s)\<lparr>APICallsTotal := APICallsTotal (stats s) + 1\<rparr>\<rparr>;
               (tr, res) = executeWithRetry (do_call e (fst sl) folderID pageToken);
               s2 = s1\<lparr>effects := effects s1 @ tr\<rparr>
           in (case res of
                 Inl err \<Rightarrow> Stop (Some err) s2
               | Inr fileList \<Rightarrow>
                   (let s3 = s2\<lparr>stats := (stats s2)\<lparr>APICallsSuccess := APICallsSuccess (stats s2) + 1\<rparr>\<rparr>;
                        s4 = process_files config folderID (Files fileList) s3
                    in if NextPageToken fileList = [] then Stop None s4
                       else Next (NextPageToken fileList) s4))))"

definition state_of :: "page_result \<Rightarrow> state" where
  "state_of r = (case r of Stop err s \<Rightarrow> s | Next token s \<Rightarrow> s)"

text \<open>
  The page loop. The upstream may hand out continuation tokens for ever, so the loop
  takes fuel: \<open>None\<close> when the fuel does not suffice, otherwise the returned error
  (\<open>None\<close> for \<open>nil\<close>) and the state.
\<close>

fun list_pages :: "nat \<Rightarrow> env \<Rightarrow> ScanConfig \<Rightarrow> nat \<times> nat \<Rightarrow> string \<Rightarrow> string \<Rightarrow> state \<Rightarrow> (error option \<times> state) option" where
  "list_pages 0 e config sl folderID pageToken s = None"
| "list_pages (Suc fuel) e config sl folderID pageToken s =
     (case list_page e config sl folderID pageToken s of
        Stop err s' \<Rightarrow> Some (err, s')
      | Next token s' \<Rightarrow> list_pages fuel e config sl folderID token s')"

text \<open>
  \<open>listFolder\<close>: \<open>getNext\<close> first (a panic there ends the process), then the page loop
  from the empty page token.
\<close>

datatype lf_result = Panic state | Return "error option" state

definition listFolder :: "nat \<Rightarrow> env \<Rightarrow> ScanConfig \<Rightarrow> string \<Rightarrow> state \<Rightarrow> lf_result option" where
  "listFolder fuel e config folderID s =
     (case getNext (pool s) of
        (c, None) \<Rightarrow> Some (Panic (s\<lparr>pool := (pool s)\<lparr>current := c\<rparr>\<rparr>))
      | (c, Some sl) \<Rightarrow>
          (case list_pages fuel e config sl folderID [] (s\<lparr>pool := (pool s)\<lparr>current := c\<rparr>\<rparr>) of
             None \<Rightarrow> None
           | Some (err, s') \<Rightarrow> Some (Return err s')))"

text \<open>
  The body of the loop of \<open>Worker.start\<close> for one job: an error of \<open>listFolder\<close> is
  logged and counted in \<open>APICallsFailed\<close>.
\<close>

definition run_job :: "nat \<Rightarrow> env \<Rightarrow> ScanConfig \<Rightarrow> string \<Rightarrow> state \<Rightarrow> state option" where
  "run_job fuel e config folderID s =
     (case listFolder fuel e config folderID s of
        None \<Rightarrow> None
      | Some (Panic s') \<Rightarrow> Some (s'\<lparr>panicked := True\<rparr>)
      | Some (Return None s') \<Rightarrow> Some s'
      | Some (Return (Some err) s') \<Rightarrow>
          Some (s'\<lparr>stats := (stats s')\<lparr>APICallsFailed := APICallsFailed (stats s') + 1\<rparr>\<rparr>))"

section \<open>The result sink\<close>

text \<open>
  The closure \<open>flush\<close> of \<open>dbWriter\<close>: nothing for an empty batch; otherwise the batch
  goes to \<open>BatchInsert\<close>, \<open>DBInserts\<close> grows by the length of the batch when that
  returns \<open>nil\<close>, a log line is written otherwise, and the batch is emptied either way.
\<close>

definition flush :: "env \<Rightarrow> state \<Rightarrow> state" where
  "flush e s =
     (if batch s = [] then s
      else (let (err, t, lg) = BatchInsert (db e (nflush s)) (batch s) (files s);
                s1 = s\<lparr>files := t, nflush := nflush s + 1, writes := writes s @ [batch s],
                       logs := logs s @ lg\<rparr>;
                s2 = (case err of
                        Some msg \<Rightarrow> s1\<lparr>logs := logs s1 @ [msg]\<rparr>
                      | None \<Rightarrow> s1\<lparr>stats := (stats s1)\<lparr>DBInserts := DBInserts (stats s1) + int (length (batch s))\<rparr>\<rparr>)
            in s2\<lparr>batch := []\<rparr>))"

text \<open>The branch of the \<open>select\<close> that received a record.\<close>

definition sink_recv :: "env \<Rightarrow> int \<Rightarrow> FileRecord \<Rightarrow> state \<Rightarrow> state" where
  "sink_recv e batchSize record s =
     (let s1 = s\<lparr>batch := batch s @ [record]\<rparr>
      in if int (length (batch s1)) \<ge> batchSize then flush e s1 else s1)"

text \<open>
  The branch that found the channel closed: a last \<open>flush\<close>, then the deferred
  \<open>close(done)\<close>.
\<close>

definition sink_closed :: "env \<Rightarrow> state \<Rightarrow> state" where
  "sink_closed e s = (flush e s)\<lparr>dbDone := True\<rparr>"

text \<open>
  The loop \<open>for { select { ... } }\<close> of \<open>dbWriter\<close>: what the \<open>select\<close> takes, in order,
  is a record from the channel or a tick of the 2-second ticker; the end of the list is
  the closed channel.
\<close>

datatype sink_event = Recv FileRecord | Tick

fun dbWriter_loop :: "env \<Rightarrow> int \<Rightarrow> sink_event list \<Rightarrow> state \<Rightarrow> state" where
  "dbWriter_loop e batchSize [] s = sink_closed e s"
| "dbWriter_loop e batchSize (Recv record # evs) s =
     dbWriter_loop e batchSize evs (sink_recv e batchSize record s)"
| "dbWriter_loop e batchSize (Tick # evs) s = dbWriter_loop e batchSize evs (flush e s)"

text \<open>
  \<open>dbWriter\<close> on its own. Before the loop it registers \<open>defer close(done)\<close> and
  allocates the batch with \<open>make([]database.FileRecord, 0, batchSize)\<close>, which panics
  for a negative \<open>batchSize\<close>: then nothing is received or written, the deferred
  \<open>close(done)\<close> runs while the panic unwinds, and the process ends.
\<close>

definition dbWriter :: "env \<Rightarrow> int \<Rightarrow> sink_event list \<Rightarrow> state \<Rightarrow> state" where
  "dbWriter e batchSize evs s =
     (if batchSize < 0 then s\<lparr>dbDone := True, panicked := True\<rparr>
      else dbWriter_loop e batchSize evs s)"

text \<open>
  The flush pattern the specification describes for a stream of records that no tick
  interrupts: full batches of the threshold size, and what is left at the end.
\<close>

function chunks :: "nat \<Rightarrow> 'a list \<Rightarrow> 'a list list" where
  "chunks n xs = (if n = 0 \<or> xs = [] then [] else take n xs # chunks n (drop n xs))"
  by pat_completeness auto
termination
  by (relation "measure (\<lambda>(n, xs). length xs)") auto

declare chunks.simps [simp del]

fun received :: "sink_event list \<Rightarrow> FileRecord list" where
  "received [] = []"
| "received (Recv record # evs) = record # received evs"
| "received (Tick # evs) = received evs"

section \<open>The crawl as a transition system\<close>

text \<open>\<open>pool.Count() * config.WorkersPerAccount\<close> and the capacity of the job queue.\<close>

definition totalWorkers :: "ScanConfig \<Rightarrow> ServiceAccountPool \<Rightarrow> int" where
  "totalWorkers config p = int (length (services p)) * WorkersPerAccount config"

definition job_cap :: "ScanConfig \<Rightarrow> ServiceAccountPool \<Rightarrow> int" where
  "job_cap config p = totalWorkers config p * 10"

definition zero_stats :: Stats where
  "zero_stats = \<lparr>FilesProcessed = 0, FoldersQueued = 0, APICallsTotal = 0,
                  APICallsSuccess = 0, APICallsFailed = 0, DBInserts = 0\<rparr>"

text \<open>
  The state when \<open>ScanTeamDrive\<close> reaches \<open>jobQueue <- config.TeamDriveID\<close>: the sink
  and the workers have been started, each worker after a \<open>wg.Add(1)\<close>, and every worker
  waits in \<open>for folderID := range w.jobQueue\<close>. A negative capacity makes \<open>make\<close> panic
  (for the job queue, or for the sink's batch).
\<close>

definition init_state :: "ScanConfig \<Rightarrow> ServiceAccountPool \<Rightarrow> files_table \<Rightarrow> state" where
  "init_state config p t =
     \<lparr>stats = zero_stats, pool = p, jobQueue = [], jobClosed = False,
      resultQueue = [], resultClosed = False,
      wg = max 0 (totalWorkers config p), senders = [], main = MainSend,
      workers = replicate (nat (totalWorkers config p)) WRanging,
      panicked = (totalWorkers config p < 0 \<or> BatchInsertSize config < 0),
      batch = [], files = t, nflush = 0, dbDone = False,
      entered = [], emitted = [], writes = [], effects = [], logs = []\<rparr>"

text \<open>
  The steps of the goroutines. A worker's \<open>listFolder\<close> is one step: what it adds to
  the counters, the result queue, the wait group and the senders does not depend on
  how it interleaves with the other goroutines. The capacity of the result queue
  (100000) is left out: a full queue delays a send and changes nothing else.
  \<^item> \<open>EvMainSend\<close>: \<open>jobQueue <- config.TeamDriveID\<close>, possible when the buffer has
    room (with capacity 0 there is no worker to receive either);
  \<^item> \<open>EvDispatch id\<close>: a started goroutine delivers \<open>id\<close> on the job queue;
  \<^item> \<open>EvJob i fuel\<close>: worker \<open>i\<close> receives the next id and lists that folder;
  \<^item> \<open>EvWorkerExit i\<close>: the \<open>range\<close> of worker \<open>i\<close> ends, on a closed and drained
    job queue, and the deferred \<open>wg.Done()\<close> runs;
  \<^item> \<open>EvWaitReturns\<close>: \<open>wg.Wait()\<close> returns, on a zero counter, and
    \<open>close(resultQueue)\<close> follows;
  \<^item> \<open>EvSinkRecv\<close>, \<open>EvSinkTick\<close>, \<open>EvSinkClosed\<close>: the branches of the sink's
    \<open>select\<close>;
  \<^item> \<open>EvMainDone\<close>: \<open><-dbDone\<close> returns and \<open>ScanTeamDrive\<close> returns \<open>nil\<close>.
  A step that is not possible in a state is \<open>None\<close>; after a panic nothing runs.
\<close>

datatype event =
    EvMainSend | EvDispatch string | EvJob nat nat | EvWorkerExit nat | EvWaitReturns
  | EvSinkRecv | EvSinkTick | EvSinkClosed | EvMainDone

fun crawl_step :: "env \<Rightarrow> ScanConfig \<Rightarrow> event \<Rightarrow> state \<Rightarrow> state option" where
  "crawl_step e config EvMainSend s =
     (if \<not> panicked s \<and> main s = MainSend \<and> int (length (jobQueue s)) < job_cap config (pool s)
      then Some (if jobClosed s then s\<lparr>panicked := True\<rparr>
                 else s\<lparr>jobQueue := jobQueue s @ [TeamDriveID config],
                        entered := entered s @ [TeamDriveID config], main := MainWait\<rparr>)
      else None)"
| "crawl_step e config (EvDispatch folderID) s =
     (if \<not> panicked s \<and> folderID \<in> set (senders s) \<and> int (length (jobQueue s)) < job_cap config (pool s)
      then Some (if jobClosed s then s\<lparr>panicked := True\<rparr>
                 else s\<lparr>jobQueue := jobQueue s @ [folderID], entered := entered s @ [folderID],
                        senders := remove1 folderID (senders s)\<rparr>)
      else None)"
| "crawl_step e config (EvJob i fuel) s =
     (if \<not> panicked s \<and> i < length (workers s) \<and> workers s ! i = WRanging
      then (case jobQueue s of
              [] \<Rightarrow> None
            | folderID # rest \<Rightarrow> run_job fuel e config folderID (s\<lparr>jobQueue := rest\<rparr>))
      else None)"
| "crawl_step e config (EvWorkerExit i) s =
     (if \<not> panicked s \<and> i < length (workers s) \<and> workers s ! i = WRanging
         \<and> jobQueue s = [] \<and> jobClosed s
      then Some (if wg s - 1 < 0 then s\<lparr>panicked := True\<rparr>
                 else s\<lparr>workers := (workers s)[i := WExited], wg := wg s - 1\<rparr>)
      else None)"
| "crawl_step e config EvWaitReturns s =
     (if \<not> panicked s \<and> main s = MainWait \<and> wg s = 0
      then Some (s\<lparr>main := MainRecvDone, resultClosed := True\<rparr>)
      else None)"
| "crawl_step e config EvSinkRecv s =
     (if \<not> panicked s \<and> \<not> dbDone s
      then (case resultQueue s of
              [] \<Rightarrow> None
            | record # rest \<Rightarrow> Some (sink_recv e (BatchInsertSize config) record (s\<lparr>resultQueue := rest\<rparr>)))
      else None)"
| "crawl_step e config EvSinkTick s =
     (if \<not> panicked s \<and> \<not> dbDone s then Some (flush e s) else None)"
| "crawl_step e config EvSinkClosed s =
     (if \<not> panicked s \<and> \<not> dbDone s \<and> resultQueue s = [] \<and> resultClosed s
      then Some (sink_closed e s) else None)"
| "crawl_step e config EvMainDone s =
     (if \<not> panicked s \<and> main s = MainRecvDone \<and> dbDone s
      then Some (s\<lparr>main := MainReturned\<rparr>) else None)"

fun crawl_run :: "env \<Rightarrow> ScanConfig \<Rightarrow> event list \<Rightarrow> state \<Rightarrow> state option" where
  "crawl_run e config [] s = Some s"
| "crawl_run e config (ev # evs) s =
     (case crawl_step e config ev s of None \<Rightarrow> None | Some s' \<Rightarrow> crawl_run e config evs s')"

section \<open>Notions for stating the properties\<close>

definition is_folder :: "drive_file \<Rightarrow> bool" where
  "is_folder file = (MimeType_f file = folder_mime)"

text \<open>
  What listing the given items of a folder does to the shared state: the records
  emitted, the goroutines started and the counters, and what it leaves alone. The
  counters of API calls, the cursor of the pool and the trace of the retry executor
  are not mentioned.
\<close>

definition listed :: "ScanConfig \<Rightarrow> string \<Rightarrow> drive_file list \<Rightarrow> state \<Rightarrow> state \<Rightarrow> bool" where
  "listed config folderID items s s' =
     (emitted s' = emitted s @ map (mk_record config folderID) items
      \<and> resultQueue s' = resultQueue s @ map (mk_record config folderID) items
      \<and> senders s' = senders s @ map Id (filter is_folder items)
      \<and> wg s' = wg s + int (length (filter is_folder items))
      \<and> FilesProcessed (stats s') = FilesProcessed (stats s) + int (length items)
      \<and> FoldersQueued (stats s') = FoldersQueued (stats s) + int (length (filter is_folder items))
      \<and> DBInserts (stats s') = DBInserts (stats s)
      \<and> services (pool s') = services (pool s) \<and> limiters (pool s') = limiters (pool s)
      \<and> jobQueue s' = jobQueue s \<and> jobClosed s' = jobClosed s \<and> resultClosed s' = resultClosed s
      \<and> main s' = main s \<and> workers s' = workers s \<and> panicked s' = panicked s
      \<and> batch s' = batch s \<and> files s' = files s \<and> nflush s' = nflush s \<and> dbDone s' = dbDone s
      \<and> entered s' = entered s \<and> writes s' = writes s \<and> logs s' = logs s)"

text \<open>
  The page that \<open>listFolder\<close> obtains for a page token, when it obtains one (the limiter
  lets it through and the retry executor returns a page), and the children that the
  upstream reports in the pages \<open>listFolder\<close> obtains for a folder, in order.
\<close>

definition page_of :: "env \<Rightarrow> nat \<times> nat \<Rightarrow> string \<Rightarrow> string \<Rightarrow> file_list option" where
  "page_of e sl folderID pageToken =
     (case wait e (snd sl) folderID pageToken of
        Some err \<Rightarrow> None
      | None \<Rightarrow>
          (case snd (executeWithRetry (do_call e (fst sl) folderID pageToken)) of
             Inl err \<Rightarrow> None
           | Inr fileList \<Rightarrow> Some fileList))"

fun listed_items :: "nat \<Rightarrow> env \<Rightarrow> nat \<times> nat \<Rightarrow> string \<Rightarrow> string \<Rightarrow> drive_file list" where
  "listed_items 0 e sl folderID pageToken = []"
| "listed_items (Suc fuel) e sl folderID pageToken =
     (case page_of e sl folderID pageToken of
        None \<Rightarrow> []
      | Some fileList \<Rightarrow>
          Files fileList @
          (if NextPageToken fileList = [] then []
           else listed_items fuel e sl folderID (NextPageToken fileList)))"

text \<open>The ids of the folder records among the records emitted so far.\<close>

definition folder_ids :: "state \<Rightarrow> string list" where
  "folder_ids s = map ID (filter IsFolder (emitted s))"

text \<open>
  What holds in every state of a crawl of configuration \<open>config\<close> on the pool \<open>p\<close>:
  nothing has closed the job queue, so no worker has left its loop, the wait group
  still counts every worker, and \<open>ScanTeamDrive\<close> has not got past \<open>wg.Wait()\<close>.
\<close>

definition waiting :: "ScanConfig \<Rightarrow> ServiceAccountPool \<Rightarrow> state \<Rightarrow> bool" where
  "waiting config p s =
     (\<not> jobClosed s \<and> \<not> resultClosed s \<and> \<not> dbDone s
      \<and> (main s = MainSend \<or> main s = MainWait)
      \<and> workers s = replicate (nat (totalWorkers config p)) WRanging
      \<and> services (pool s) = services p
      \<and> totalWorkers config p \<le> wg s
      \<and> (main s = MainWait \<longrightarrow> 0 < totalWorkers config p))"

text \<open>
  The bookkeeping of a crawl: the ids that entered the job queue or are on their way to
  it are the root (once \<open>ScanTeamDrive\<close> has sent it) and one for every folder record
  emitted; \<open>FilesProcessed\<close> counts the records emitted and \<open>FoldersQueued\<close> the
  folder records among them.
\<close>

definition accounted :: "ScanConfig \<Rightarrow> state \<Rightarrow> bool" where
  "accounted config s =
     (mset (entered s) + mset (senders s)
        = (if main s = MainSend then {#} else {#TeamDriveID config#}) + mset (folder_ids s)
      \<and> FilesProcessed (stats s) = int (length (emitted s))
      \<and> FoldersQueued (stats s) = int (length (folder_ids s)))"

text \<open>The counters of files and folders, and the three counters of API calls.\<close>

definition crawl_counters :: "state \<Rightarrow> int \<times> int" where
  "crawl_counters s = (FilesProcessed (stats s), FoldersQueued (stats s))"


definition api_counters :: "state \<Rightarrow> int \<times> int \<times> int" where
  "api_counters s = (APICallsTotal (stats s), APICallsSuccess (stats s), APICallsFailed (stats s))"

section \<open>Scenarios\<close>

text \<open>
  Calls for the retry executor: rate limited (429) or unavailable (500) on the first two
  invocations and then answering with an empty page, and rate limited or unavailable on
  every invocation.
\<close>

definition twice_limited :: "nat \<Rightarrow> api_error + file_list" where
  "twice_limited k = (if k < 2 then Inl (GoogleApiError 429) else Inr \<lparr>Files = [], NextPageToken = []\<rparr>)"

definition always_limited :: "nat \<Rightarrow> api_error + file_list" where
  "always_limited k = Inl (GoogleApiError 429)"

definition always_unavailable :: "nat \<Rightarrow> api_error + file_list" where
  "always_unavailable k = Inl (GoogleApiError 500)"

definition twice_unavailable :: "nat \<Rightarrow> api_error + file_list" where
  "twice_unavailable k = (if k < 2 then Inl (GoogleApiError 500) else Inr \<lparr>Files = [], NextPageToken = []\<rparr>)"

text \<open>
  A crawl configuration, a root folder \<open>A\<close> with two files and the subfolder \<open>B\<close>, and
  the one file of \<open>B\<close>.
\<close>

definition scan_cfg :: ScanConfig where
  "scan_cfg = \<lparr>TeamDriveID = ''A'', TeamDriveName = ''drive'', WorkersPerAccount = 1,
               PageSize = 100, BatchInsertSize = 100\<rparr>"

definition file1 :: drive_file where
  "file1 = \<lparr>Id = ''f1'', Name_f = ''one.txt'', Size_f = 10, ModifiedTime_f = ''2024-01-01'',
            MimeType_f = ''text/plain''\<rparr>"

definition file2 :: drive_file where
  "file2 = \<lparr>Id = ''f2'', Name_f = ''two.txt'', Size_f = 20, ModifiedTime_f = ''2024-01-02'',
            MimeType_f = ''text/plain''\<rparr>"

definition folderB :: drive_file where
  "folderB = \<lparr>Id = ''B'', Name_f = ''sub'', Size_f = 0, ModifiedTime_f = ''2024-01-03'',
              MimeType_f = folder_mime\<rparr>"

definition file3 :: drive_file where
  "file3 = \<lparr>Id = ''f3'', Name_f = ''three.txt'', Size_f = 30, ModifiedTime_f = ''2024-01-04'',
            MimeType_f = ''text/plain''\<rparr>"

text \<open>
  A database on which every operation succeeds, and one whose insert statement fails
  for the records of a given name.
\<close>

definition db_ok :: db_env where
  "db_ok = \<lparr>begin_err = None, prepare_err = None, exec_err = (\<lambda>i r. None), commit_err = None,
            clock = 0\<rparr>"

definition db_reject :: "string \<Rightarrow> db_env" where
  "db_reject name = \<lparr>begin_err = None, prepare_err = None,
                      exec_err = (\<lambda>i r. if Name r = name then Some ''constraint failed'' else None),
                      commit_err = None, clock = 0\<rparr>"

text \<open>
  An upstream that answers every listing with one empty page, with a database on which
  everything succeeds, or one that rejects the records named \<open>two.txt\<close>; an upstream
  that answers every listing with 429 twice and then with one empty page; and \<open>n\<close>
  records with different ids.
\<close>

definition env_ok :: env where
  "env_ok = \<lparr>wait = (\<lambda>l f t. None),
             do_call = (\<lambda>svc f t k. Inr \<lparr>Files = [], NextPageToken = []\<rparr>),
             db = (\<lambda>n. db_ok)\<rparr>"

definition env_reject :: env where
  "env_reject = \<lparr>wait = (\<lambda>l f t. None),
                 do_call = (\<lambda>svc f t k. Inr \<lparr>Files = [], NextPageToken = []\<rparr>),
                 db = (\<lambda>n. db_reject ''two.txt'')\<rparr>"

definition env_limited :: env where
  "env_limited = \<lparr>wait = (\<lambda>l f t. None), do_call = (\<lambda>svc f t. twice_limited), db = (\<lambda>n. db_ok)\<rparr>"

text \<open>
  The upstream of the tree: the listing of \<open>A\<close> is one page with \<open>file1\<close>, \<open>file2\<close> and
  the folder \<open>B\<close>; the listing of \<open>B\<close> is one page with \<open>file3\<close>; any other listing is
  one empty page. And an upstream that reports the folder \<open>B\<close> twice in the listing of
  \<open>A\<close>.
\<close>

definition env_tree :: env where
  "env_tree = \<lparr>wait = (\<lambda>l f t. None),
               do_call = (\<lambda>svc f t k.
                 if f = ''A'' then Inr \<lparr>Files = [file1, file2, folderB], NextPageToken = []\<rparr>
                 else if f = ''B'' then Inr \<lparr>Files = [file3], NextPageToken = []\<rparr>
                 else Inr \<lparr>Files = [], NextPageToken = []\<rparr>),
               db = (\<lambda>n. db_ok)\<rparr>"

definition env_dup :: env where
  "env_dup = \<lparr>wait = (\<lambda>l f t. None),
              do_call = (\<lambda>svc f t k.
                if f = ''A'' then Inr \<lparr>Files = [folderB, folderB], NextPageToken = []\<rparr>
                else Inr \<lparr>Files = [], NextPageToken = []\<rparr>),
              db = (\<lambda>n. db_ok)\<rparr>"

definition numbered :: "nat \<Rightarrow> FileRecord list" where
  "numbered n = map (\<lambda>i. (mk_record scan_cfg ''A'' file1)\<lparr>ID := replicate (Suc i) (CHR ''x'')\<rparr>) [0 ..< n]"

definition start :: state where
  "start = init_state scan_cfg (pool_of 1) Map.empty"

text \<open>
  The states of the crawl of the root \<open>A\<close> (two files and the subfolder \<open>B\<close>, which has
  one file) with one worker: nothing sent yet; \<open>A\<close> queued; \<open>A\<close> listed and \<open>B\<close> on its
  way to the queue or in it; both listed.
\<close>

definition recsA :: "FileRecord list" where
  "recsA = map (mk_record scan_cfg ''A'') [file1, file2, folderB]"

definition recsB :: "FileRecord list" where
  "recsB = map (mk_record scan_cfg ''B'') [file3]"

definition tree_phase :: "state \<Rightarrow> bool" where
  "tree_phase s =
     (\<not> panicked s \<and> services (pool s) = [0] \<and> limiters (pool s) = [0]
      \<and> ((main s = MainSend \<and> jobQueue s = [] \<and> senders s = [] \<and> emitted s = [])
         \<or> (main s \<noteq> MainSend \<and> jobQueue s = [''A''] \<and> senders s = [] \<and> emitted s = [])
         \<or> (main s \<noteq> MainSend \<and> jobQueue s = [] \<and> senders s = [''B''] \<and> emitted s = recsA)
         \<or> (main s \<noteq> MainSend \<and> jobQueue s = [''B''] \<and> senders s = [] \<and> emitted s = recsA)
         \<or> (main s \<noteq> MainSend \<and> jobQueue s = [] \<and> senders s = [] \<and> emitted s = recsA @ recsB)))"

section \<open>Properties\<close>

subsection \<open>The retry executor\<close>

lemma retry_loop_5: "retry_loop call 5 = ([], Inl MaxRetriesExceeded)"
  by (simp add: retry_loop.simps maxRetries_def)

lemma retry_loop_ge: "maxRetries \<le> a \<Longrightarrow> retry_loop call a = ([], Inl MaxRetriesExceeded)"
  by (simp add: retry_loop.simps)

lemma retry_loop_ok: "a < maxRetries \<Longrightarrow> call a = Inr fl \<Longrightarrow> retry_loop call a = ([Attempt a], Inr fl)"
  by (simp add: retry_loop.simps)

lemma retry_loop_fail_more:
  "a < maxRetries - 1 \<Longrightarrow> call a = Inl e \<Longrightarrow>
   retry_loop call a =
     (Attempt a # (if rate_limited e then [LogRateLimit (backoff a)] else []) @ Sleep (backoff a) # fst (retry_loop call (Suc a)),
      snd (retry_loop call (Suc a)))"
  by (subst retry_loop.simps) (simp add: split_beta Let_def)

lemma retry_loop_fail_last:
  "a = maxRetries - 1 \<Longrightarrow> call a = Inl e \<Longrightarrow>
   retry_loop call a =
     (if rate_limited e then ([Attempt a, LogRateLimit (backoff a), Sleep (backoff a)], Inl MaxRetriesExceeded)
      else ([Attempt a], Inl (CallError e)))"
  by (subst retry_loop.simps) (simp add: split_beta Let_def retry_loop_ge maxRetries_def)

lemma attempts_bound: "attempts_of (fst (retry_loop call a)) \<le> maxRetries - a"
proof (induction "maxRetries - a" arbitrary: a)
  case 0
  then show ?case by (simp add: retry_loop_ge attempts_of_def)
next
  case (Suc n)
  then have lt: "a < maxRetries" by simp
  show ?case
  proof (cases "call a")
    case (Inr fl)
    with lt show ?thesis by (simp add: retry_loop_ok attempts_of_def)
  next
    case (Inl e)
    show ?thesis
    proof (cases "a = maxRetries - 1")
      case True
      with Inl lt show ?thesis by (simp add: retry_loop_fail_last attempts_of_def)
    next
      case False
      with lt have m: "a < maxRetries - 1" by simp
      have "n = maxRetries - Suc a" using Suc.hyps(2) by simp
      from Suc.hyps(1)[OF this] m Inl show ?thesis
        by (simp add: retry_loop_fail_more attempts_of_def)
    qed
  qed
qed

lemma sleeps_schedule_ex:
  "\<exists>n. sleeps_of (fst (retry_loop call a)) = map backoff [a ..< a + n]"
proof (induction "maxRetries - a" arbitrary: a)
  case 0
  then have "sleeps_of (fst (retry_loop call a)) = map backoff [a ..< a + 0]" by (simp add: retry_loop_ge)
  then show ?case by blast
next
  case (Suc n)
  then have lt: "a < maxRetries" by simp
  show ?case
  proof (cases "call a")
    case (Inr fl)
    with lt have "sleeps_of (fst (retry_loop call a)) = map backoff [a ..< a + 0]" by (simp add: retry_loop_ok)
    then show ?thesis by blast
  next
    case (Inl e)
    show ?thesis
    proof (cases "a = maxRetries - 1")
      case True
      have "[a ..< a + 1] = [a]" by simp
      moreover have "[a ..< a + 0] = []" by simp
      ultimately show ?thesis unfolding retry_loop_fail_last[of a call e, OF True Inl]
        by (cases "rate_limited e") (auto intro: exI[of _ 0] exI[of _ 1])
    next
      case False
      with lt have m: "a < maxRetries - 1" by simp
      have "n = maxRetries - Suc a" using Suc.hyps(2) by simp
      from Suc.hyps(1)[OF this] obtain n' where ih: "sleeps_of (fst (retry_loop call (Suc a))) =
          map backoff [Suc a ..< Suc a + n']" by blast
      have u: "[a ..< a + Suc n'] = a # [Suc a ..< Suc a + n']" by (simp add: upt_rec)
      have "sleeps_of (fst (retry_loop call a)) = map backoff [a ..< a + Suc n']"
        unfolding retry_loop_fail_more[of a call e, OF m Inl] u using ih by simp
      then show ?thesis by blast
    qed
  qed
qed

lemma sleeps_schedule:
  "sleeps_of (fst (retry_loop call a)) = map backoff [a ..< a + length (sleeps_of (fst (retry_loop call a)))]"
proof -
  obtain n where n: "sleeps_of (fst (retry_loop call a)) = map backoff [a ..< a + n]"
    using sleeps_schedule_ex by blast
  then have "length (sleeps_of (fst (retry_loop call a))) = n" by simp
  with n show ?thesis by simp
qed

lemma first_success_gen:
  "k < maxRetries \<Longrightarrow> a \<le> k \<Longrightarrow> call k = Inr fl \<Longrightarrow> (\<forall>j. a \<le> j \<and> j < k \<longrightarrow> isl (call j)) \<Longrightarrow>
   snd (retry_loop call a) = Inr fl \<and> attempts_of (fst (retry_loop call a)) = Suc k - a
   \<and> last (fst (retry_loop call a)) = Attempt k
   \<and> sleeps_of (fst (retry_loop call a)) = map backoff [a ..< k]"
proof (induction "k - a" arbitrary: a)
  case 0
  then have "a = k" by simp
  with 0 show ?case by (simp add: retry_loop_ok attempts_of_def)
next
  case (Suc n)
  then have ak: "a < k" by simp
  with Suc.prems have "isl (call a)" by simp
  then obtain e where e: "call a = Inl e" by (cases "call a") auto
  from ak Suc.prems(1) have m: "a < maxRetries - 1" by simp
  have n: "n = k - Suc a" using Suc.hyps(2) by simp
  have ih: "snd (retry_loop call (Suc a)) = Inr fl \<and> attempts_of (fst (retry_loop call (Suc a))) = Suc k - Suc a
   \<and> last (fst (retry_loop call (Suc a))) = Attempt k
   \<and> sleeps_of (fst (retry_loop call (Suc a))) = map backoff [Suc a ..< k]"
    using Suc.hyps(1)[OF n Suc.prems(1) _ Suc.prems(3)] ak Suc.prems(4) by simp
  have ne: "fst (retry_loop call (Suc a)) \<noteq> []"
    using ih ak by (auto simp: attempts_of_def)
  have u: "[a ..< k] = a # [Suc a ..< k]" using ak by (simp add: upt_rec)
  have d: "Suc k - a = Suc (k - a)" using ak by simp
  show ?case unfolding retry_loop_fail_more[of a call e, OF m e] u d using ih ne
    by (simp add: attempts_of_def)
qed


lemma first_success_unlogged:
  "k < maxRetries \<Longrightarrow> a \<le> k \<Longrightarrow> call k = Inr fl \<Longrightarrow> (\<forall>j. a \<le> j \<and> j < k \<longrightarrow> isl (call j)) \<Longrightarrow>
   unlogged (fst (retry_loop call a)) = concat (map (\<lambda>j. [Attempt j, Sleep (backoff j)]) [a ..< k]) @ [Attempt k]"
proof (induction "k - a" arbitrary: a)
  case 0
  then have "a = k" by simp
  with 0 show ?case by (simp add: retry_loop_ok unlogged_def)
next
  case (Suc n)
  then have ak: "a < k" by simp
  with Suc.prems have "isl (call a)" by simp
  then obtain e where e: "call a = Inl e" by (cases "call a") auto
  from ak Suc.prems(1) have m: "a < maxRetries - 1" by simp
  have n: "n = k - Suc a" using Suc.hyps(2) by simp
  have ih: "unlogged (fst (retry_loop call (Suc a))) = concat (map (\<lambda>j. [Attempt j, Sleep (backoff j)]) [Suc a ..< k]) @ [Attempt k]"
    using Suc.hyps(1)[OF n Suc.prems(1) _ Suc.prems(3)] ak Suc.prems(4) by simp
  have u: "[a ..< k] = a # [Suc a ..< k]" using ak by (simp add: upt_rec)
  show ?case unfolding retry_loop_fail_more[of a call e, OF m e] u using ih
    by (simp add: unlogged_def)
qed

lemma all_fail_gen:
  "\<forall>j<maxRetries. isl (call j) \<Longrightarrow> call 4 = Inl e \<Longrightarrow> a \<le> 4 \<Longrightarrow>
   snd (retry_loop call a) = Inl (if rate_limited e then MaxRetriesExceeded else CallError e)
   \<and> attempts_of (fst (retry_loop call a)) = 5 - a
   \<and> sleeps_of (fst (retry_loop call a)) = map backoff [a ..< (if rate_limited e then 5 else 4)]"
proof (induction "4 - a" arbitrary: a)
  case 0
  then have a: "a = maxRetries - 1" by (simp add: maxRetries_def)
  have a4: "a = 4" using 0 by simp
  have e: "call a = Inl e" using 0 a4 by simp
  show ?case unfolding retry_loop_fail_last[of a call e, OF a e]
    by (simp add: a4 attempts_of_def upt_rec)
next
  case (Suc n)
  then have m: "a < maxRetries - 1" by (simp add: maxRetries_def)
  then have "isl (call a)" using Suc.prems(1) by simp
  then obtain e' where e': "call a = Inl e'" by (cases "call a") auto
  have n: "n = 4 - Suc a" using Suc.hyps(2) by simp
  have le: "Suc a \<le> 4" using Suc.hyps(2) by simp
  note ih = Suc.hyps(1)[OF n Suc.prems(1) Suc.prems(2) le]
  have u5: "[a ..< 5] = a # [Suc a ..< 5]" using le by (simp add: upt_rec)
  have u4: "[a ..< 4] = a # [Suc a ..< 4]" using le by (simp add: upt_rec)
  have d: "5 - a = Suc (5 - Suc a)" using le by simp
  show ?case unfolding retry_loop_fail_more[of a call e', OF m e'] d using ih
    by (simp add: attempts_of_def u5 u4)
qed

text \<open>
  Claim C3, as the code has it. \<open>executeWithRetry\<close> invokes the call at most 5 times.
  When invocation \<open>k\<close> is the first to succeed, the result is the one of that
  invocation, \<open>k + 1\<close> invocations were made and nothing happens after the last one.
  When all five invocations fail, five were made, and the returned error is
  "max retries exceeded" when the fifth failure is rate-limit-class (403 or 429), and
  the fifth failure itself otherwise.
\<close>

theorem executeWithRetry_attempts:
  "attempts_of (fst (executeWithRetry call)) \<le> 5
   \<and> (\<forall>k fileList. k < 5 \<and> call k = Inr fileList \<and> (\<forall>j<k. isl (call j)) \<longrightarrow>
         snd (executeWithRetry call) = Inr fileList
         \<and> attempts_of (fst (executeWithRetry call)) = k + 1
         \<and> last (fst (executeWithRetry call)) = Attempt k)
   \<and> (\<forall>err. (\<forall>j<5. isl (call j)) \<and> call 4 = Inl err \<longrightarrow>
         attempts_of (fst (executeWithRetry call)) = 5
         \<and> snd (executeWithRetry call) = Inl (if rate_limited err then MaxRetriesExceeded else CallError err))"
proof (intro conjI allI impI)
  show "attempts_of (fst (executeWithRetry call)) \<le> 5"
    using attempts_bound[of call 0] by (simp add: executeWithRetry_def maxRetries_def)
next
  fix k fileList
  assume h: "k < 5 \<and> call k = Inr fileList \<and> (\<forall>j<k. isl (call j))"
  then have "k < maxRetries" "0 \<le> k" "call k = Inr fileList" "\<forall>j. 0 \<le> j \<and> j < k \<longrightarrow> isl (call j)"
    by (simp_all add: maxRetries_def)
  from first_success_gen[OF this]
  show "snd (executeWithRetry call) = Inr fileList" 
    and "attempts_of (fst (executeWithRetry call)) = k + 1"
    and "last (fst (executeWithRetry call)) = Attempt k"
    by (simp_all add: executeWithRetry_def)
next
  fix err
  assume h: "(\<forall>j<5. isl (call j)) \<and> call 4 = Inl err"
  then have "\<forall>j<maxRetries. isl (call j)" "call 4 = Inl err" "(0::nat) \<le> 4"
    by (simp_all add: maxRetries_def)
  from all_fail_gen[OF this]
  show "attempts_of (fst (executeWithRetry call)) = 5"
    and "snd (executeWithRetry call) = Inl (if rate_limited err then MaxRetriesExceeded else CallError err)"
    by (simp_all add: executeWithRetry_def)
qed

text \<open>
  The theorem at two calls: rate limited twice and then answered, and rate limited on
  every invocation.
\<close>

theorem executeWithRetry_attempts_witness:
  "snd (executeWithRetry twice_limited) = Inr \<lparr>Files = [], NextPageToken = []\<rparr>
   \<and> attempts_of (fst (executeWithRetry twice_limited)) = 3
   \<and> attempts_of (fst (executeWithRetry always_limited)) = 5
   \<and> snd (executeWithRetry always_limited) = Inl MaxRetriesExceeded"
proof -
  have a: "(2::nat) < 5 \<and> twice_limited 2 = Inr \<lparr>Files = [], NextPageToken = []\<rparr> \<and> (\<forall>j<2. isl (twice_limited j))"
    by (simp add: twice_limited_def)
  have b: "(\<forall>j<5. isl (always_limited j)) \<and> always_limited 4 = Inl (GoogleApiError 429)"
    by (simp add: always_limited_def)
  have r: "rate_limited (GoogleApiError 429)" by (simp add: rate_limited_def)
  from executeWithRetry_attempts[of twice_limited] a
  have "snd (executeWithRetry twice_limited) = Inr \<lparr>Files = [], NextPageToken = []\<rparr>
     \<and> attempts_of (fst (executeWithRetry twice_limited)) = 2 + 1" by blast
  moreover from executeWithRetry_attempts[of always_limited] b
  have "attempts_of (fst (executeWithRetry always_limited)) = 5
     \<and> snd (executeWithRetry always_limited) = Inl (if rate_limited (GoogleApiError 429) then MaxRetriesExceeded else CallError (GoogleApiError 429))" by blast
  ultimately show ?thesis using r by simp
qed

lemma retry_eval: "retry_loop call a = (if a < 5 then
        (case call a of
           Inr fileList \<Rightarrow> ([Attempt a], Inr fileList)
         | Inl err \<Rightarrow>
             (if rate_limited err then
                (Attempt a # LogRateLimit (backoff a) # Sleep (backoff a) # fst (retry_loop call (a + 1)), snd (retry_loop call (a + 1)))
              else if a < 4 then
                (Attempt a # Sleep (backoff a) # fst (retry_loop call (a + 1)), snd (retry_loop call (a + 1)))
              else ([Attempt a], Inl (CallError err))))
      else ([], Inl MaxRetriesExceeded))"
  by (subst retry_loop.simps) (simp add: maxRetries_def split_beta Let_def split: sum.splits)

text \<open>
  Claim C3 as stated fails for a call that answers 500 on every invocation: after five
  invocations the error returned is that of the fifth invocation, not "max retries
  exceeded".
\<close>

theorem executeWithRetry_exhausted_counterexample:
  "snd (executeWithRetry always_unavailable) = Inl (CallError (GoogleApiError 500))
   \<and> snd (executeWithRetry always_unavailable) \<noteq> Inl MaxRetriesExceeded
   \<and> attempts_of (fst (executeWithRetry always_unavailable)) = 5"
  by (simp add: executeWithRetry_def retry_eval always_unavailable_def rate_limited_def attempts_of_def)

lemma sleeps_after_failures:
  "k < maxRetries - 1 \<Longrightarrow> a \<le> k \<Longrightarrow> (\<forall>j. a \<le> j \<and> j \<le> k \<longrightarrow> isl (call j)) \<Longrightarrow>
   Suc k - a \<le> length (sleeps_of (fst (retry_loop call a)))"
proof (induction "k - a" arbitrary: a)
  case 0
  then have ak: "a = k" by simp
  with 0 have "isl (call a)" by simp
  then obtain e where e: "call a = Inl e" by (cases "call a") auto
  have m: "a < maxRetries - 1" using 0 ak by simp
  show ?case unfolding retry_loop_fail_more[of a call e, OF m e] using ak by simp
next
  case (Suc n)
  then have ak: "a < k" by simp
  with Suc.prems have "isl (call a)" by simp
  then obtain e where e: "call a = Inl e" by (cases "call a") auto
  from ak Suc.prems(1) have m: "a < maxRetries - 1" by simp
  have n: "n = k - Suc a" using Suc.hyps(2) by simp
  have "Suc k - Suc a \<le> length (sleeps_of (fst (retry_loop call (Suc a))))"
    using Suc.hyps(1)[OF n Suc.prems(1)] ak Suc.prems(3) by simp
  then show ?case unfolding retry_loop_fail_more[of a call e, OF m e] using ak by simp
qed

lemma class_irrelevant:
  assumes shape: "\<forall>k<5. (isl (call k) \<and> isl (call' k)) \<or> call k = call' k"
    and ok: "\<exists>k<5. \<not> isl (call k)"
  shows "snd (executeWithRetry call') = snd (executeWithRetry call)
       \<and> unlogged (fst (executeWithRetry call')) = unlogged (fst (executeWithRetry call))"
proof -
  define k0 where "k0 = (LEAST k. \<not> isl (call k))"
  from ok obtain k1 where k1: "k1 < 5" "\<not> isl (call k1)" by blast
  have nk0: "\<not> isl (call k0)" unfolding k0_def using k1(2) by (rule LeastI)
  have k0le: "k0 \<le> k1" unfolding k0_def using k1(2) by (rule Least_le)
  then have k05: "k0 < 5" using k1(1) by simp
  have before: "\<forall>j<k0. isl (call j)" unfolding k0_def using not_less_Least by blast
  obtain fl where fl: "call k0 = Inr fl" using nk0 by (cases "call k0") auto
  have fl': "call' k0 = Inr fl" using shape k05 nk0 fl by auto
  have before': "\<forall>j<k0. isl (call' j)"
  proof (intro allI impI)
    fix j assume j: "j < k0"
    then have "j < 5" using k05 by simp
    with shape have "(isl (call j) \<and> isl (call' j)) \<or> call j = call' j" by blast
    with before j show "isl (call' j)" by auto
  qed
  have m: "k0 < maxRetries" using k05 by (simp add: maxRetries_def)
  have a: "snd (retry_loop call 0) = Inr fl" "unlogged (fst (retry_loop call 0)) = concat (map (\<lambda>j. [Attempt j, Sleep (backoff j)]) [0 ..< k0]) @ [Attempt k0]"
    using first_success_gen[of k0 0 call fl] first_success_unlogged[of k0 0 call fl] m fl before by simp_all
  have b: "snd (retry_loop call' 0) = Inr fl" "unlogged (fst (retry_loop call' 0)) = concat (map (\<lambda>j. [Attempt j, Sleep (backoff j)]) [0 ..< k0]) @ [Attempt k0]"
    using first_success_gen[of k0 0 call' fl] first_success_unlogged[of k0 0 call' fl] m fl' before' by simp_all
  show ?thesis using a b by (simp add: executeWithRetry_def)
qed

text \<open>
  Claim C4, as the code has it. The \<open>k\<close>-th wait of \<open>executeWithRetry\<close> is
  \<open>baseDelay * 2 ^ k\<close>; after a failed invocation \<open>k < 4\<close> the wait takes place,
  whatever the class of the failure. Two calls that fail at the same invocations (with
  any errors) and agree where they succeed, one of the first five invocations
  succeeding, give the same result and the same trace up to the log lines. When all
  five invocations fail there are five waits if the fifth failure is rate-limit-class
  and four otherwise.
\<close>

theorem backoff_schedule:
  "sleeps_of (fst (executeWithRetry call))
     = map (\<lambda>k. baseDelay * 2 ^ k) [0 ..< length (sleeps_of (fst (executeWithRetry call)))]
   \<and> (\<forall>k<4. (\<forall>j\<le>k. isl (call j)) \<longrightarrow> k < length (sleeps_of (fst (executeWithRetry call))))
   \<and> (\<forall>call'. (\<forall>k<5. (isl (call k) \<and> isl (call' k)) \<or> call k = call' k) \<and> (\<exists>k<5. \<not> isl (call k)) \<longrightarrow>
         snd (executeWithRetry call') = snd (executeWithRetry call)
         \<and> unlogged (fst (executeWithRetry call')) = unlogged (fst (executeWithRetry call)))
   \<and> (\<forall>err. (\<forall>j<5. isl (call j)) \<and> call 4 = Inl err \<longrightarrow>
         length (sleeps_of (fst (executeWithRetry call))) = (if rate_limited err then 5 else 4))"
proof (intro conjI allI impI)
  have "(\<lambda>k. baseDelay * 2 ^ k) = backoff" by (rule ext) (simp add: backoff_def)
  then show "sleeps_of (fst (executeWithRetry call))
     = map (\<lambda>k. baseDelay * 2 ^ k) [0 ..< length (sleeps_of (fst (executeWithRetry call)))]"
    using sleeps_schedule[of call 0] by (simp add: executeWithRetry_def)
next
  fix k assume k: "k < 4" and f: "\<forall>j\<le>k. isl (call j)"
  have "Suc k - 0 \<le> length (sleeps_of (fst (retry_loop call 0)))"
    by (rule sleeps_after_failures) (use k f in \<open>simp_all add: maxRetries_def\<close>)
  then show "k < length (sleeps_of (fst (executeWithRetry call)))"
    by (simp add: executeWithRetry_def)
next
  fix call'
  assume h: "(\<forall>k<5. (isl (call k) \<and> isl (call' k)) \<or> call k = call' k) \<and> (\<exists>k<5. \<not> isl (call k))"
  then show "snd (executeWithRetry call') = snd (executeWithRetry call)"
    and "unlogged (fst (executeWithRetry call')) = unlogged (fst (executeWithRetry call))"
    using class_irrelevant[of call call'] by blast+
next
  fix err
  assume h: "(\<forall>j<5. isl (call j)) \<and> call 4 = Inl err"
  then have "\<forall>j<maxRetries. isl (call j)" "call 4 = Inl err" "(0::nat) \<le> 4"
    by (simp_all add: maxRetries_def)
  from all_fail_gen[OF this]
  show "length (sleeps_of (fst (executeWithRetry call))) = (if rate_limited err then 5 else 4)"
    by (simp add: executeWithRetry_def)
qed

text \<open>
  The theorem at the calls that fail twice, with 429 and with 500, and at the call that
  is rate limited on every invocation.
\<close>

theorem backoff_schedule_witness:
  "sleeps_of (fst (executeWithRetry twice_limited)) = [1000000000, 2000000000]
   \<and> sleeps_of (fst (executeWithRetry twice_unavailable)) = [1000000000, 2000000000]
   \<and> snd (executeWithRetry twice_unavailable) = snd (executeWithRetry twice_limited)
   \<and> unlogged (fst (executeWithRetry twice_unavailable)) = unlogged (fst (executeWithRetry twice_limited))
   \<and> length (sleeps_of (fst (executeWithRetry always_limited))) = 5"
proof -
  have sh: "(\<forall>k<5. (isl (twice_limited k) \<and> isl (twice_unavailable k)) \<or> twice_limited k = twice_unavailable k)
      \<and> (\<exists>k<5. \<not> isl (twice_limited k))"
    by (auto simp: twice_limited_def twice_unavailable_def intro: exI[of _ 2])
  have f1: "\<forall>j\<le>1. isl (twice_limited j)" by (simp add: twice_limited_def)
  have f2: "\<forall>j<5. isl (always_limited j)" by (simp add: always_limited_def)
  note t = backoff_schedule[of twice_limited]
  from t sh have eqs: "snd (executeWithRetry twice_unavailable) = snd (executeWithRetry twice_limited)
         \<and> unlogged (fst (executeWithRetry twice_unavailable)) = unlogged (fst (executeWithRetry twice_limited))"
    by blast
  have l5: "length (sleeps_of (fst (executeWithRetry always_limited))) = 5"
    using backoff_schedule[of always_limited] f2 by (simp add: always_limited_def rate_limited_def)
  have s1: "sleeps_of (fst (executeWithRetry twice_limited)) = [1000000000, 2000000000]"
    by (simp add: executeWithRetry_def retry_eval twice_limited_def rate_limited_def backoff_def baseDelay_def)
  have s2: "sleeps_of (fst (executeWithRetry twice_unavailable)) = [1000000000, 2000000000]"
    by (simp add: executeWithRetry_def retry_eval twice_unavailable_def rate_limited_def backoff_def baseDelay_def)
  show ?thesis using eqs l5 s1 s2 by simp
qed

text \<open>
  Claim C4 as stated fails when all five invocations fail: rate limited every time, the
  loop waits five times and returns "max retries exceeded"; answered 500 every time, it
  waits four times and returns the error of the fifth invocation.
\<close>

theorem classification_counterexample:
  "sleeps_of (fst (executeWithRetry always_limited)) = [1000000000, 2000000000, 4000000000, 8000000000, 16000000000]
   \<and> sleeps_of (fst (executeWithRetry always_unavailable)) = [1000000000, 2000000000, 4000000000, 8000000000]
   \<and> snd (executeWithRetry always_limited) = Inl MaxRetriesExceeded
   \<and> snd (executeWithRetry always_unavailable) = Inl (CallError (GoogleApiError 500))"
  by (simp add: executeWithRetry_def retry_eval always_limited_def always_unavailable_def rate_limited_def backoff_def baseDelay_def)


subsection \<open>The credential pool\<close>

lemma getNext_times_current: "current (getNext_times n p) = current p + of_nat n"
  by (induction n arbitrary: p) (simp_all add: getNext_def Let_def)

lemma getNext_times_services: "services (getNext_times n p) = services p \<and> limiters (getNext_times n p) = limiters p"
  by (induction n arbitrary: p) simp_all

text \<open>
  Claim C9 fails on the code. In a pool of three entries, after \<open>2 ^ 31 - 1\<close> calls of
  \<open>getNext\<close> the counter is \<open>2147483647\<close>; the next call wraps it to \<open>- 2147483648\<close>,
  the remainder by 3 is \<open>- 2\<close>, and indexing the slices with it panics.
\<close>

theorem getNext_wraps_out_of_range: "snd (getNext (getNext_times 2147483647 (pool_of 3))) = None
   \<and> fst (getNext (getNext_times 2147483647 (pool_of 3))) = - 2147483648
   \<and> go_rem (sint (fst (getNext (getNext_times 2147483647 (pool_of 3))))) 3 = - 2"
  by (simp add: getNext_def getNext_times_current getNext_times_services pool_of_def go_rem_def Let_def)

lemma go_rem_range: "0 \<le> a \<Longrightarrow> 0 < b \<Longrightarrow> 0 \<le> go_rem a b \<and> go_rem a b < b"
  by (cases "a = 0") (simp_all add: go_rem_def)

lemma getNext_in_range:
  "services p \<noteq> [] \<Longrightarrow> length (limiters p) = length (services p) \<Longrightarrow> 0 \<le> sint (current p + 1) \<Longrightarrow>
   \<exists>i < length (services p). snd (getNext p) = Some (services p ! i, limiters p ! i)"
proof -
  assume a: "services p \<noteq> []" "length (limiters p) = length (services p)" "0 \<le> sint (current p + 1)"
  let ?idx = "go_rem (sint (current p + 1)) (int (length (services p)))"
  have "0 \<le> ?idx \<and> ?idx < int (length (services p))"
    using a by (intro go_rem_range) simp_all
  then show ?thesis using a by (auto simp: getNext_def Let_def intro!: exI[of _ "nat ?idx"])
qed


lemma sint_small: "n < 2147483648 \<Longrightarrow> sint (word_of_nat n :: 32 word) = int n"
  by (simp add: signed_of_nat signed_take_bit_int_eq_self)

lemma getNext_before_wrap:
  assumes "n < 2147483647" "0 < m"
  shows "\<exists>i<m. snd (getNext (getNext_times n (pool_of m))) = Some (i, i)"
proof -
  let ?p = "getNext_times n (pool_of m)"
  have c: "current ?p + 1 = word_of_nat (Suc n)"
    by (simp add: getNext_times_current pool_of_def)
  have s: "services ?p = [0..<m]" "limiters ?p = [0..<m]"
    by (simp_all add: getNext_times_services pool_of_def)
  have "0 \<le> sint (current ?p + 1)" unfolding c using assms(1) by (subst sint_small) simp_all
  with getNext_in_range[of ?p] s assms(2)
  obtain i where "i < length (services ?p)" "snd (getNext ?p) = Some (services ?p ! i, limiters ?p ! i)"
    by auto
  then show ?thesis using s by auto
qed


subsection \<open>The storage\<close>

lemma find_snoc: "find P (xs @ [x]) = (case find P xs of Some y \<Rightarrow> Some y | None \<Rightarrow> if P x then Some x else None)"
  by (induction xs) simp_all

lemma fold_upsert_at:
  "fold (insert_or_replace now) rs t k =
     (case find (\<lambda>r. ID r = k) (rev rs) of None \<Rightarrow> t k | Some r \<Rightarrow> Some (row_of now r))"
  by (induction rs arbitrary: t) (auto simp: find_snoc insert_or_replace_def split: option.splits)

lemma fold_upsert_twice:
  "fold (insert_or_replace n2) rs (fold (insert_or_replace n1) rs t) = fold (insert_or_replace n2) rs t"
  by (rule ext) (simp add: fold_upsert_at split: option.splits)

lemma columns_row_of: "(row_of n2 r)\<lparr>c_created_at := 0\<rparr> = (row_of n1 r)\<lparr>c_created_at := 0\<rparr>"
  by (simp add: row_of_def)

lemma fold_upsert_columns:
  "columns (fold (insert_or_replace n2) rs (fold (insert_or_replace n1) rs t)) = columns (fold (insert_or_replace n1) rs t)"
  by (rule ext) (simp add: columns_def fold_upsert_at columns_row_of split: option.splits)

lemma dom_fold_upsert: "dom (fold (insert_or_replace now) rs t) = dom t \<union> ID ` set rs"
  by (induction rs arbitrary: t) (auto simp: insert_or_replace_def)

lemma exec_all_ok: "exec_err d = (\<lambda>i r. None) \<Longrightarrow> exec_all d i rs t = (fold (insert_or_replace (clock d)) rs t, [])"
  by (induction rs arbitrary: i t) simp_all

lemma BatchInsert_ok:
  "begin_err d = None \<Longrightarrow> prepare_err d = None \<Longrightarrow> commit_err d = None \<Longrightarrow> exec_err d = (\<lambda>i r. None) \<Longrightarrow>
   BatchInsert d rs t = (None, fold (insert_or_replace (clock d)) rs t, [])"
  by (simp add: BatchInsert_def exec_all_ok)

lemma fold_upsert_columns_clock:
  "columns (fold (insert_or_replace n2) rs t) = columns (fold (insert_or_replace n1) rs t)"
  by (rule ext) (simp add: columns_def fold_upsert_at columns_row_of split: option.splits)

text \<open>
  What \<open>INSERT OR REPLACE\<close> on the primary key gives where the statements of both
  calls run and succeed: writing a batch a second time leaves the table as a single
  write at the time of the second call would, with the same ids as after the first
  write (those of the table before and of the batch, one row each) and in every row
  the same ten columns of the record. The second write renews \<open>created_at\<close>; the
  table is the same outright only at an unchanged clock.
\<close>

lemma upsert_twice:
  assumes "begin_err d1 = None" "prepare_err d1 = None" "commit_err d1 = None" "exec_err d1 = (\<lambda>i r. None)"
    and "begin_err d2 = None" "prepare_err d2 = None" "commit_err d2 = None" "exec_err d2 = (\<lambda>i r. None)"
  shows "fst (BatchInsert d2 records (fst (snd (BatchInsert d1 records t)))) = None
    \<and> fst (snd (BatchInsert d2 records (fst (snd (BatchInsert d1 records t))))) = fst (snd (BatchInsert d2 records t))
    \<and> columns (fst (snd (BatchInsert d2 records (fst (snd (BatchInsert d1 records t))))))
        = columns (fst (snd (BatchInsert d1 records t)))
    \<and> dom (fst (snd (BatchInsert d2 records (fst (snd (BatchInsert d1 records t))))))
        = dom (fst (snd (BatchInsert d1 records t)))
    \<and> dom (fst (snd (BatchInsert d1 records t))) = dom t \<union> ID ` set records
    \<and> (clock d2 = clock d1 \<longrightarrow>
         fst (snd (BatchInsert d2 records (fst (snd (BatchInsert d1 records t))))) = fst (snd (BatchInsert d1 records t)))"
proof -
  have b1: "BatchInsert d1 records t = (None, fold (insert_or_replace (clock d1)) records t, [])"
    using assms by (simp add: BatchInsert_ok)
  have b2: "\<And>t'. BatchInsert d2 records t' = (None, fold (insert_or_replace (clock d2)) records t', [])"
    using assms by (simp add: BatchInsert_ok)
  show ?thesis unfolding b1 b2
    by (simp add: fold_upsert_twice fold_upsert_columns_clock[of "clock d2" records t "clock d1"] dom_fold_upsert Un_assoc)
qed

lemma BatchInsert_prepare_fails:
  "begin_err d = None \<Longrightarrow> prepare_err d = Some msg \<Longrightarrow> BatchInsert d records t = (Some msg, t, [])"
  by (simp add: BatchInsert_def)


lemma exec_all_filter:
  "exec_all d i rs t =
     (fold (insert_or_replace (clock d)) (map snd (filter (\<lambda>(j, r). exec_err d j r = None) (enumerate i rs))) t,
      map (\<lambda>(j, r). Name r) (filter (\<lambda>(j, r). exec_err d j r \<noteq> None) (enumerate i rs)))"
  by (induction rs arbitrary: i t) (auto split: option.splits)

lemma flush_nonempty:
  "batch s \<noteq> [] \<Longrightarrow> BatchInsert (db e (nflush s)) (batch s) (files s) = (None, t, lg) \<Longrightarrow>
   DBInserts (stats (flush e s)) = DBInserts (stats s) + int (length (batch s))
   \<and> files (flush e s) = t \<and> batch (flush e s) = [] \<and> writes (flush e s) = writes s @ [batch s]"
  by (simp add: flush_def)

text \<open>
  Claim C10. \<open>BatchInsert\<close> returns an error exactly when \<open>Begin\<close>, \<open>Prepare\<close> or
  \<open>Commit\<close> fails. When none of them fails it returns \<open>nil\<close>, the table holds the
  records whose insert succeeded (in the order of the batch), and the names of the
  others are logged. A flush of a non-empty batch on such a database adds the length
  of the whole batch to \<open>DBInserts\<close>, whatever the inserts of the single records did.
\<close>

theorem BatchInsert_errors:
  "(fst (BatchInsert d records t) \<noteq> None \<longleftrightarrow> begin_err d \<noteq> None \<or> prepare_err d \<noteq> None \<or> commit_err d \<noteq> None)
   \<and> (begin_err d = None \<and> prepare_err d = None \<and> commit_err d = None \<longrightarrow>
        BatchInsert d records t =
          (None,
           fold (insert_or_replace (clock d)) (map snd (filter (\<lambda>(i, r). exec_err d i r = None) (enumerate 0 records))) t,
           map (\<lambda>(i, r). Name r) (filter (\<lambda>(i, r). exec_err d i r \<noteq> None) (enumerate 0 records))))
   \<and> (batch s \<noteq> [] \<and> begin_err (db e (nflush s)) = None \<and> prepare_err (db e (nflush s)) = None
        \<and> commit_err (db e (nflush s)) = None \<longrightarrow>
        DBInserts (stats (flush e s)) = DBInserts (stats s) + int (length (batch s)))"
proof (intro conjI impI)
  show "fst (BatchInsert d records t) \<noteq> None \<longleftrightarrow> begin_err d \<noteq> None \<or> prepare_err d \<noteq> None \<or> commit_err d \<noteq> None"
    by (auto simp: BatchInsert_def split_beta split: option.splits)
next
  assume "begin_err d = None \<and> prepare_err d = None \<and> commit_err d = None"
  then show "BatchInsert d records t =
          (None,
           fold (insert_or_replace (clock d)) (map snd (filter (\<lambda>(i, r). exec_err d i r = None) (enumerate 0 records))) t,
           map (\<lambda>(i, r). Name r) (filter (\<lambda>(i, r). exec_err d i r \<noteq> None) (enumerate 0 records)))"
    by (simp add: BatchInsert_def exec_all_filter)
next
  assume a: "batch s \<noteq> [] \<and> begin_err (db e (nflush s)) = None \<and> prepare_err (db e (nflush s)) = None
        \<and> commit_err (db e (nflush s)) = None"
  then have "BatchInsert (db e (nflush s)) (batch s) (files s) =
       (None, fst (exec_all (db e (nflush s)) 0 (batch s) (files s)), snd (exec_all (db e (nflush s)) 0 (batch s) (files s)))"
    by (simp add: BatchInsert_def split_beta)
  with a show "DBInserts (stats (flush e s)) = DBInserts (stats s) + int (length (batch s))"
    using flush_nonempty by blast
qed


text \<open>
  The theorem for a batch of two records on a database that rejects the second: no
  error, one row, one log line, and \<open>DBInserts\<close> is 2.
\<close>

theorem BatchInsert_errors_witness:
  "fst (BatchInsert (db_reject ''two.txt'') [mk_record scan_cfg ''A'' file1, mk_record scan_cfg ''A'' file2] Map.empty) = None
   \<and> dom (fst (snd (BatchInsert (db_reject ''two.txt'') [mk_record scan_cfg ''A'' file1, mk_record scan_cfg ''A'' file2] Map.empty))) = {''f1''}
   \<and> snd (snd (BatchInsert (db_reject ''two.txt'') [mk_record scan_cfg ''A'' file1, mk_record scan_cfg ''A'' file2] Map.empty)) = [''two.txt'']
   \<and> DBInserts (stats (flush env_reject (start\<lparr>batch := [mk_record scan_cfg ''A'' file1, mk_record scan_cfg ''A'' file2]\<rparr>))) = 2"
proof -
  let ?rs = "[mk_record scan_cfg ''A'' file1, mk_record scan_cfg ''A'' file2]"
  let ?s = "start\<lparr>batch := ?rs\<rparr>"
  have h: "begin_err (db_reject ''two.txt'') = None \<and> prepare_err (db_reject ''two.txt'') = None
      \<and> commit_err (db_reject ''two.txt'') = None"
    by (simp add: db_reject_def)
  have hs: "batch ?s \<noteq> [] \<and> begin_err (db env_reject (nflush ?s)) = None \<and> prepare_err (db env_reject (nflush ?s)) = None
        \<and> commit_err (db env_reject (nflush ?s)) = None"
    by (simp add: env_reject_def db_reject_def)
  note t = BatchInsert_errors[of "db_reject ''two.txt''" ?rs Map.empty ?s env_reject]
  have e1: "enumerate 0 ?rs = [(0, mk_record scan_cfg ''A'' file1), (1, mk_record scan_cfg ''A'' file2)]"
    by (simp add: enumerate_eq_zip upt_rec)
  from t h have r: "BatchInsert (db_reject ''two.txt'') ?rs Map.empty =
          (None,
           fold (insert_or_replace (clock (db_reject ''two.txt''))) (map snd (filter (\<lambda>(i, r). exec_err (db_reject ''two.txt'') i r = None) (enumerate 0 ?rs))) Map.empty,
           map (\<lambda>(i, r). Name r) (filter (\<lambda>(i, r). exec_err (db_reject ''two.txt'') i r \<noteq> None) (enumerate 0 ?rs)))"
    by blast
  from t hs have c: "DBInserts (stats (flush env_reject ?s)) = DBInserts (stats ?s) + int (length (batch ?s))"
    by blast
  have z: "DBInserts (stats ?s) = 0" by (simp add: start_def init_state_def zero_stats_def)
  show ?thesis unfolding r e1 using c z
    by (simp add: db_reject_def mk_record_def file1_def file2_def insert_or_replace_def)
qed

subsection \<open>The result sink\<close>

lemma flush_frame:
  "pool (flush e s) = pool s \<and> jobQueue (flush e s) = jobQueue s \<and> jobClosed (flush e s) = jobClosed s
   \<and> resultQueue (flush e s) = resultQueue s \<and> resultClosed (flush e s) = resultClosed s
   \<and> wg (flush e s) = wg s \<and> senders (flush e s) = senders s \<and> main (flush e s) = main s
   \<and> workers (flush e s) = workers s \<and> panicked (flush e s) = panicked s \<and> dbDone (flush e s) = dbDone s
   \<and> entered (flush e s) = entered s \<and> emitted (flush e s) = emitted s \<and> effects (flush e s) = effects s
   \<and> FilesProcessed (stats (flush e s)) = FilesProcessed (stats s)
   \<and> FoldersQueued (stats (flush e s)) = FoldersQueued (stats s)
   \<and> APICallsTotal (stats (flush e s)) = APICallsTotal (stats s)
   \<and> APICallsSuccess (stats (flush e s)) = APICallsSuccess (stats s)
   \<and> APICallsFailed (stats (flush e s)) = APICallsFailed (stats s)"
  by (simp add: flush_def split_beta Let_def split: option.splits)

lemma flush_batch: "batch (flush e s) = []"
  by (simp add: flush_def split_beta Let_def split: option.splits)

lemma flush_writes: "writes (flush e s) = (if batch s = [] then writes s else writes s @ [batch s])"
  by (simp add: flush_def split_beta Let_def split: option.splits)

lemma flush_inserts:
  "begin_err (db e (nflush s)) = None \<Longrightarrow> prepare_err (db e (nflush s)) = None \<Longrightarrow> commit_err (db e (nflush s)) = None \<Longrightarrow>
   DBInserts (stats (flush e s)) = DBInserts (stats s) + int (length (batch s))"
  by (simp add: flush_def BatchInsert_def split_beta Let_def)

lemma sink_recv_writes:
  "writes (sink_recv e b r s) = (if b \<le> int (length (batch s)) + 1 then writes s @ [batch s @ [r]] else writes s)
   \<and> batch (sink_recv e b r s) = (if b \<le> int (length (batch s)) + 1 then [] else batch s @ [r])"
  by (simp add: sink_recv_def Let_def flush_writes flush_batch)

lemma sink_recv_inserts:
  "\<forall>n. begin_err (db e n) = None \<and> prepare_err (db e n) = None \<and> commit_err (db e n) = None \<Longrightarrow>
   DBInserts (stats (sink_recv e b r s)) + int (length (batch (sink_recv e b r s)))
     = DBInserts (stats s) + int (length (batch s)) + 1"
  by (simp add: sink_recv_def Let_def flush_inserts flush_batch)

lemma dbWriter_loop_inserts:
  "\<forall>n. begin_err (db e n) = None \<and> prepare_err (db e n) = None \<and> commit_err (db e n) = None \<Longrightarrow>
   DBInserts (stats (dbWriter_loop e b evs s)) = DBInserts (stats s) + int (length (batch s)) + int (length (received evs))"
proof (induction evs arbitrary: s)
  case Nil
  then show ?case by (simp add: sink_closed_def flush_inserts)
next
  case (Cons ev evs)
  show ?case
  proof (cases ev)
    case (Recv r)
    show ?thesis using Cons.IH[OF Cons.prems, of "sink_recv e b r s"] sink_recv_inserts[OF Cons.prems, of b r s]
      by (simp add: Recv)
  next
    case Tick
    show ?thesis using Cons.IH[OF Cons.prems, of "flush e s"] Cons.prems
      by (simp add: Tick flush_inserts flush_batch)
  qed
qed

lemma dbWriter_loop_concat:
  "concat (writes (dbWriter_loop e b evs s)) = concat (writes s) @ batch s @ received evs"
proof (induction evs arbitrary: s)
  case Nil
  then show ?case by (simp add: sink_closed_def flush_writes)
next
  case (Cons ev evs)
  show ?case
  proof (cases ev)
    case (Recv r)
    show ?thesis using Cons.IH[of "sink_recv e b r s"]
      by (simp add: Recv sink_recv_writes)
  next
    case Tick
    show ?thesis using Cons.IH[of "flush e s"]
      by (simp add: Tick flush_writes flush_batch)
  qed
qed

lemma chunks_short: "0 < n \<Longrightarrow> xs \<noteq> [] \<Longrightarrow> length xs \<le> n \<Longrightarrow> chunks n xs = [xs]"
  by (subst chunks.simps) (simp add: chunks.simps[of n "[]"])

lemma chunks_long: "0 < n \<Longrightarrow> length pre = n \<Longrightarrow> chunks n (pre @ xs) = pre # chunks n xs"
  by (subst chunks.simps) auto

lemma chunks_Nil: "chunks n [] = []"
  by (simp add: chunks.simps)

lemma dbWriter_loop_chunks:
  "0 < b \<Longrightarrow> int (length (batch s)) < b \<Longrightarrow>
   writes (dbWriter_loop e b (map Recv rs) s) = writes s @ chunks (nat b) (batch s @ rs)"
proof (induction rs arbitrary: s)
  case Nil
  then show ?case
    by (cases "batch s = []") (simp_all add: sink_closed_def flush_writes chunks_Nil chunks_short)
next
  case (Cons r rs)
  show ?case
  proof (cases "b \<le> int (length (batch s)) + 1")
    case True
    with Cons.prems have len: "length (batch s @ [r]) = nat b" by simp
    have bs: "batch (sink_recv e b r s) = []" "writes (sink_recv e b r s) = writes s @ [batch s @ [r]]"
      using True by (simp_all add: sink_recv_writes)
    have "chunks (nat b) ((batch s @ [r]) @ rs) = (batch s @ [r]) # chunks (nat b) rs"
      using Cons.prems(1) len by (intro chunks_long) simp_all
    then show ?thesis using Cons.IH[of "sink_recv e b r s"] Cons.prems(1) bs by simp
  next
    case False
    then have bs: "batch (sink_recv e b r s) = batch s @ [r]" "writes (sink_recv e b r s) = writes s"
      by (simp_all add: sink_recv_writes)
    have "int (length (batch (sink_recv e b r s))) < b" using False bs by simp
    from Cons.IH[OF Cons.prems(1) this] show ?thesis using bs by simp
  qed
qed

lemma chunks_3:
  "200 < length xs \<Longrightarrow> length xs \<le> 300 \<Longrightarrow> chunks 100 xs = [take 100 xs, take 100 (drop 100 xs), drop 200 xs]"
proof -
  assume a: "200 < length xs" "length xs \<le> 300"
  have x: "xs = take 100 xs @ drop 100 xs" by simp
  have y: "drop 100 xs = take 100 (drop 100 xs) @ drop 200 xs"
    by (metis append_take_drop_id drop_drop numeral_Bit0) 
  have 1: "chunks 100 xs = take 100 xs # chunks 100 (drop 100 xs)"
    using chunks_long[of 100 "take 100 xs" "drop 100 xs"] a by simp
  have 2: "chunks 100 (drop 100 xs) = take 100 (drop 100 xs) # chunks 100 (drop 200 xs)"
    using chunks_long[of 100 "take 100 (drop 100 xs)" "drop 200 xs"] a y by simp
  have 3: "chunks 100 (drop 200 xs) = [drop 200 xs]"
    using a by (intro chunks_short) auto
  show ?thesis using 1 2 3 by simp
qed

lemma dbWriter_loop_done: "dbDone (dbWriter_loop e b evs s)"
  by (induction e b evs s rule: dbWriter_loop.induct) (simp_all add: sink_closed_def)

lemma dbWriter_nonneg: "0 \<le> b \<Longrightarrow> dbWriter e b evs s = dbWriter_loop e b evs s"
  by (simp add: dbWriter_def)

lemma dbWriter_neg: "b < 0 \<Longrightarrow> dbWriter e b evs s = s\<lparr>dbDone := True, panicked := True\<rparr>"
  by (simp add: dbWriter_def)

lemma writes_grow: "\<exists>ws. writes (dbWriter_loop e b evs s) = writes s @ ws"
proof (induction evs arbitrary: s)
  case Nil
  show ?case by (simp add: sink_closed_def flush_writes)
next
  case (Cons ev evs)
  show ?case
  proof (cases ev)
    case (Recv r)
    from Cons[of "sink_recv e b r s"] obtain ws where
      "writes (dbWriter_loop e b evs (sink_recv e b r s)) = writes (sink_recv e b r s) @ ws" by blast
    then show ?thesis by (simp add: Recv sink_recv_writes)
  next
    case Tick
    from Cons[of "flush e s"] obtain ws where
      "writes (dbWriter_loop e b evs (flush e s)) = writes (flush e s) @ ws" by blast
    then show ?thesis by (simp add: Tick flush_writes)
  qed
qed

lemma next_write:
  assumes "writes s1 = writes s @ [w]"
  shows "take (Suc (length (writes s))) (writes (dbWriter_loop e b evs s1)) = writes s @ [w]"
proof -
  from writes_grow[of e b evs s1] obtain ws where
    "writes (dbWriter_loop e b evs s1) = writes s1 @ ws" by blast
  then show ?thesis using assms by simp
qed

lemma flush_empty: "batch s = [] \<Longrightarrow> flush e s = s"
  by (simp add: flush_def)

lemma start_fields:
  "batch start = [] \<and> writes start = [] \<and> DBInserts (stats start) = 0 \<and> FilesProcessed (stats start) = 0
   \<and> FoldersQueued (stats start) = 0 \<and> APICallsTotal (stats start) = 0 \<and> APICallsSuccess (stats start) = 0
   \<and> APICallsFailed (stats start) = 0 \<and> emitted start = [] \<and> entered start = [] \<and> jobQueue start = []
   \<and> senders start = [] \<and> main start = MainSend \<and> \<not> panicked start \<and> workers start = [WRanging]
   \<and> wg start = 1 \<and> pool start = pool_of 1 \<and> \<not> jobClosed start \<and> effects start = []
   \<and> resultQueue start = [] \<and> \<not> dbDone start"
  by (simp add: start_def init_state_def zero_stats_def totalWorkers_def pool_of_def scan_cfg_def)

lemma received_map_Recv: "received (map Recv rs) = rs"
  by (induction rs) simp_all

lemma length_numbered: "length (numbered n) = n"
  by (simp add: numbered_def)

lemma env_ok_db: "\<forall>n. begin_err (db env_ok n) = None \<and> prepare_err (db env_ok n) = None \<and> commit_err (db env_ok n) = None"
  by (simp add: env_ok_def db_ok_def)

text \<open>
  Claim C7, as the code has it. Receiving a record writes the batch (with that record)
  when its length reaches the threshold, and only then: below the threshold the record
  is only buffered. A tick writes the batch when it is not empty, as the next write,
  and does nothing when it is empty. Every run of the sink ends with \<open>dbDone\<close> closed.
  With a threshold that is not negative, the batches written, one after the other, are
  the records that were buffered and received, in order; with a negative threshold the
  sink panics before it receives anything and writes nothing. For 250 records received
  with no tick between them, threshold 100 and successful writes, the batches written
  are the first 100, the next 100 and the last 50, and \<open>DBInserts\<close> grows by 250; with
  ticks anywhere between the 250 records, \<open>DBInserts\<close> still grows by 250.
\<close>

theorem dbWriter_flushes:
  "writes (sink_recv e b record s)
     = (if b \<le> int (length (batch s)) + 1 then writes s @ [batch s @ [record]] else writes s)
   \<and> batch (sink_recv e b record s) = (if b \<le> int (length (batch s)) + 1 then [] else batch s @ [record])
   \<and> writes (flush e s) = (if batch s = [] then writes s else writes s @ [batch s])
   \<and> batch (flush e s) = []
   \<and> (0 \<le> b \<and> batch s \<noteq> [] \<longrightarrow>
        take (Suc (length (writes s))) (writes (dbWriter e b (Tick # evs) s)) = writes s @ [batch s])
   \<and> (0 \<le> b \<and> batch s = [] \<longrightarrow> dbWriter e b (Tick # evs) s = dbWriter e b evs s)
   \<and> (0 \<le> b \<and> b \<le> int (length (batch s)) + 1 \<longrightarrow>
        take (Suc (length (writes s))) (writes (dbWriter e b (Recv record # evs) s))
          = writes s @ [batch s @ [record]])
   \<and> (0 \<le> b \<and> int (length (batch s)) + 1 < b \<longrightarrow>
        dbWriter e b (Recv record # evs) s = dbWriter e b evs (s\<lparr>batch := batch s @ [record]\<rparr>))
   \<and> dbDone (dbWriter e b evs s)
   \<and> (0 \<le> b \<longrightarrow> concat (writes (dbWriter e b evs s)) = concat (writes s) @ batch s @ received evs)
   \<and> (b < 0 \<longrightarrow> panicked (dbWriter e b evs s) \<and> writes (dbWriter e b evs s) = writes s
        \<and> DBInserts (stats (dbWriter e b evs s)) = DBInserts (stats s))
   \<and> (length records = 250 \<and> batch s = []
        \<and> (\<forall>n. begin_err (db e n) = None \<and> prepare_err (db e n) = None \<and> commit_err (db e n) = None) \<longrightarrow>
        writes (dbWriter e 100 (map Recv records) s)
          = writes s @ [take 100 records, take 100 (drop 100 records), drop 200 records]
        \<and> DBInserts (stats (dbWriter e 100 (map Recv records) s)) = DBInserts (stats s) + 250)
   \<and> (0 \<le> b \<and> length (received evs) = 250 \<and> batch s = []
        \<and> (\<forall>n. begin_err (db e n) = None \<and> prepare_err (db e n) = None \<and> commit_err (db e n) = None) \<longrightarrow>
        DBInserts (stats (dbWriter e b evs s)) = DBInserts (stats s) + 250)"
proof (intro conjI impI)
  show "writes (sink_recv e b record s)
     = (if b \<le> int (length (batch s)) + 1 then writes s @ [batch s @ [record]] else writes s)"
    and "batch (sink_recv e b record s) = (if b \<le> int (length (batch s)) + 1 then [] else batch s @ [record])"
    using sink_recv_writes[of e b "record" s] by simp_all
  show "writes (flush e s) = (if batch s = [] then writes s else writes s @ [batch s])"
    by (rule flush_writes)
  show "batch (flush e s) = []" by (rule flush_batch)
  show "dbDone (dbWriter e b evs s)"
    by (cases "b < 0") (simp_all add: dbWriter_def dbWriter_loop_done)
next
  assume a: "0 \<le> b \<and> batch s \<noteq> []"
  then have "writes (flush e s) = writes s @ [batch s]" by (simp add: flush_writes)
  from next_write[OF this, of e b evs] a
  show "take (Suc (length (writes s))) (writes (dbWriter e b (Tick # evs) s)) = writes s @ [batch s]"
    by (simp add: dbWriter_nonneg)
next
  assume "0 \<le> b \<and> batch s = []"
  then show "dbWriter e b (Tick # evs) s = dbWriter e b evs s"
    by (simp add: dbWriter_nonneg flush_empty)
next
  assume a: "0 \<le> b \<and> b \<le> int (length (batch s)) + 1"
  then have "writes (sink_recv e b record s) = writes s @ [batch s @ [record]]"
    by (simp add: sink_recv_writes)
  from next_write[OF this, of e b evs] a
  show "take (Suc (length (writes s))) (writes (dbWriter e b (Recv record # evs) s))
          = writes s @ [batch s @ [record]]"
    by (simp add: dbWriter_nonneg)
next
  assume "0 \<le> b \<and> int (length (batch s)) + 1 < b"
  then show "dbWriter e b (Recv record # evs) s = dbWriter e b evs (s\<lparr>batch := batch s @ [record]\<rparr>)"
    by (simp add: dbWriter_nonneg sink_recv_def)
next
  assume "0 \<le> b"
  then show "concat (writes (dbWriter e b evs s)) = concat (writes s) @ batch s @ received evs"
    by (simp add: dbWriter_nonneg dbWriter_loop_concat)
next
  assume n: "b < 0"
  show "panicked (dbWriter e b evs s)" and "writes (dbWriter e b evs s) = writes s"
    and "DBInserts (stats (dbWriter e b evs s)) = DBInserts (stats s)"
    using n by (simp_all add: dbWriter_neg)
next
  assume a: "length records = 250 \<and> batch s = []
        \<and> (\<forall>n. begin_err (db e n) = None \<and> prepare_err (db e n) = None \<and> commit_err (db e n) = None)"
  note r = received_map_Recv[of records]
  have "writes (dbWriter_loop e 100 (map Recv records) s) = writes s @ chunks (nat 100) (batch s @ records)"
    using a by (intro dbWriter_loop_chunks) simp_all
  then show "writes (dbWriter e 100 (map Recv records) s)
          = writes s @ [take 100 records, take 100 (drop 100 records), drop 200 records]"
    using a by (simp add: chunks_3 dbWriter_nonneg)
  show "DBInserts (stats (dbWriter e 100 (map Recv records) s)) = DBInserts (stats s) + 250"
    using a dbWriter_loop_inserts[of e 100 "map Recv records" s] by (simp add: r dbWriter_nonneg)
next
  assume a: "0 \<le> b \<and> length (received evs) = 250 \<and> batch s = []
        \<and> (\<forall>n. begin_err (db e n) = None \<and> prepare_err (db e n) = None \<and> commit_err (db e n) = None)"
  then show "DBInserts (stats (dbWriter e b evs s)) = DBInserts (stats s) + 250"
    using dbWriter_loop_inserts[of e b evs s] by (simp add: dbWriter_nonneg)
qed

text \<open>
  The theorem for 250 numbered records on the database that always succeeds, and for
  a tick that finds one record buffered and is followed by another record.
\<close>

theorem dbWriter_flushes_witness:
  "map length (writes (dbWriter env_ok 100 (map Recv (numbered 250)) start)) = [100, 100, 50]
   \<and> DBInserts (stats (dbWriter env_ok 100 (map Recv (numbered 250)) start)) = 250
   \<and> take 1 (writes (dbWriter env_ok 100 [Tick, Recv (mk_record scan_cfg ''A'' file2)]
                 (start\<lparr>batch := [mk_record scan_cfg ''A'' file1]\<rparr>)))
       = [[mk_record scan_cfg ''A'' file1]]"
proof -
  have h: "length (numbered 250) = 250 \<and> batch start = []
        \<and> (\<forall>n. begin_err (db env_ok n) = None \<and> prepare_err (db env_ok n) = None \<and> commit_err (db env_ok n) = None)"
    using env_ok_db start_fields by (simp add: length_numbered)
  note t = dbWriter_flushes[of env_ok 100 _ start _ "numbered 250"]
  from t h have "writes (dbWriter env_ok 100 (map Recv (numbered 250)) start)
          = writes start @ [take 100 (numbered 250), take 100 (drop 100 (numbered 250)), drop 200 (numbered 250)]
        \<and> DBInserts (stats (dbWriter env_ok 100 (map Recv (numbered 250)) start)) = DBInserts (stats start) + 250"
    by blast
  then have p: "map length (writes (dbWriter env_ok 100 (map Recv (numbered 250)) start)) = [100, 100, 50]
     \<and> DBInserts (stats (dbWriter env_ok 100 (map Recv (numbered 250)) start)) = 250"
    using start_fields by (simp add: length_numbered)
  let ?s = "start\<lparr>batch := [mk_record scan_cfg ''A'' file1]\<rparr>"
  have k: "(0::int) \<le> 100 \<and> batch ?s \<noteq> []" by simp
  note u = dbWriter_flushes[of env_ok 100 _ ?s "[Recv (mk_record scan_cfg ''A'' file2)]"]
  from u k have "take (Suc (length (writes ?s)))
      (writes (dbWriter env_ok 100 (Tick # [Recv (mk_record scan_cfg ''A'' file2)]) ?s)) = writes ?s @ [batch ?s]"
    by blast
  then have q: "take 1 (writes (dbWriter env_ok 100 [Tick, Recv (mk_record scan_cfg ''A'' file2)] ?s))
       = [[mk_record scan_cfg ''A'' file1]]"
    using start_fields by simp
  from p q show ?thesis by blast
qed

text \<open>
  Claim C7 as stated fails when the ticker fires between two records: 250 records with
  a tick after the first one, threshold 100 and successful writes give four writes, of
  1, 100, 100 and 49 records.
\<close>

theorem dbWriter_tick_counterexample:
  "map length (writes (dbWriter env_ok 100 (Recv (mk_record scan_cfg ''A'' file1) # Tick # map Recv (numbered 249)) start))
     = [1, 100, 100, 49]
   \<and> length (received (Recv (mk_record scan_cfg ''A'' file1) # Tick # map Recv (numbered 249))) = 250
   \<and> DBInserts (stats (dbWriter env_ok 100 (Recv (mk_record scan_cfg ''A'' file1) # Tick # map Recv (numbered 249)) start)) = 250"
proof -
  let ?r = "mk_record scan_cfg ''A'' file1"
  let ?s1 = "flush env_ok (sink_recv env_ok 100 ?r start)"
  note r = received_map_Recv[of "numbered 249"]
  have b1: "batch ?s1 = []" by (rule flush_batch)
  have w1: "writes ?s1 = [[?r]]" using start_fields by (simp add: flush_writes sink_recv_writes)
  have "writes (dbWriter_loop env_ok 100 (map Recv (numbered 249)) ?s1) = writes ?s1 @ chunks (nat 100) (batch ?s1 @ numbered 249)"
    by (intro dbWriter_loop_chunks) (simp_all add: b1)
  then have w: "writes (dbWriter_loop env_ok 100 (map Recv (numbered 249)) ?s1)
      = [[?r], take 100 (numbered 249), take 100 (drop 100 (numbered 249)), drop 200 (numbered 249)]"
    by (simp add: b1 w1 chunks_3 length_numbered)
  have d: "DBInserts (stats (dbWriter_loop env_ok 100 (Recv ?r # Tick # map Recv (numbered 249)) start)) = 250"
    using dbWriter_loop_inserts[OF env_ok_db, of 100 "Recv ?r # Tick # map Recv (numbered 249)" start] start_fields
    by (simp add: r length_numbered)
  show ?thesis using w d by (simp add: r length_numbered dbWriter_nonneg)
qed


subsection \<open>Listing one folder\<close>

lemma process_files_listed: "listed config folderID items s (process_files config folderID items s)"
proof (induction items arbitrary: s)
  case Nil
  show ?case by (simp add: listed_def)
next
  case (Cons item rest)
  from Cons[of "process_file config folderID item s"] show ?case
    by (simp add: listed_def process_file_def Let_def mk_record_def is_folder_def)
qed

lemma process_files_api:
  "APICallsTotal (stats (process_files config folderID items s)) = APICallsTotal (stats s)
   \<and> APICallsSuccess (stats (process_files config folderID items s)) = APICallsSuccess (stats s)
   \<and> APICallsFailed (stats (process_files config folderID items s)) = APICallsFailed (stats s)
   \<and> effects (process_files config folderID items s) = effects s
   \<and> pool (process_files config folderID items s) = pool s"
  by (induction items arbitrary: s) (simp_all add: process_file_def Let_def)

lemma twice_limited_trace:
  assumes "\<forall>k<2. \<exists>err. call k = Inl err \<and> rate_limited err" and "call 2 = Inr fileList"
  shows "executeWithRetry call =
     ([Attempt 0, LogRateLimit baseDelay, Sleep baseDelay, Attempt 1, LogRateLimit (2 * baseDelay),
       Sleep (2 * baseDelay), Attempt 2], Inr fileList)"
proof -
  have "\<exists>err. call 0 = Inl err \<and> rate_limited err" using assms(1) by simp
  then obtain e0 where e0: "call 0 = Inl e0" "rate_limited e0" by blast
  have "\<exists>err. call 1 = Inl err \<and> rate_limited err" using assms(1) by simp
  then obtain e1 where e1: "call 1 = Inl e1" "rate_limited e1" by blast
  have r2: "retry_loop call 2 = ([Attempt 2], Inr fileList)"
    using assms(2) by (subst retry_eval) simp
  have r1: "retry_loop call 1 = ([Attempt 1, LogRateLimit (2 * baseDelay), Sleep (2 * baseDelay), Attempt 2], Inr fileList)"
    using e1 r2 by (subst retry_eval) (simp add: backoff_def numeral_2_eq_2)
  show ?thesis unfolding executeWithRetry_def
    using e0 r1 by (subst retry_eval) (simp add: backoff_def)
qed

lemma list_page_twice_limited:
  assumes "wait e (snd sl) folderID pageToken = None"
    and "\<forall>k<2. \<exists>err. do_call e (fst sl) folderID pageToken k = Inl err \<and> rate_limited err"
    and "do_call e (fst sl) folderID pageToken 2 = Inr fileList"
  shows "APICallsTotal (stats (state_of (list_page e config sl folderID pageToken s))) = APICallsTotal (stats s) + 1
     \<and> APICallsSuccess (stats (state_of (list_page e config sl folderID pageToken s))) = APICallsSuccess (stats s) + 1
     \<and> APICallsFailed (stats (state_of (list_page e config sl folderID pageToken s))) = APICallsFailed (stats s)
     \<and> effects (state_of (list_page e config sl folderID pageToken s)) =
         effects s @ [Attempt 0, LogRateLimit baseDelay, Sleep baseDelay, Attempt 1,
                      LogRateLimit (2 * baseDelay), Sleep (2 * baseDelay), Attempt 2]"
  using assms(1) twice_limited_trace[OF assms(2,3)]
  by (simp add: list_page_def state_of_def Let_def process_files_api)


lemma list_page_twice_limited_stop:
  assumes "wait e (snd sl) folderID pageToken = None"
    and "\<forall>k<2. \<exists>err. do_call e (fst sl) folderID pageToken k = Inl err \<and> rate_limited err"
    and "do_call e (fst sl) folderID pageToken 2 = Inr fileList"
    and "NextPageToken fileList = []"
  shows "\<exists>s'. list_page e config sl folderID pageToken s = Stop None s'"
  using assms(1,4) twice_limited_trace[OF assms(2,3)]
  by (simp add: list_page_def Let_def)

lemma sleeps_of_append: "sleeps_of (xs @ ys) = sleeps_of xs @ sleeps_of ys"
  by (induction xs rule: sleeps_of.induct) simp_all

lemma run_job_twice_limited:
  assumes "snd (getNext (pool s)) = Some sl"
    and "wait e (snd sl) folderID [] = None"
    and "\<forall>k<2. \<exists>err. do_call e (fst sl) folderID [] k = Inl err \<and> rate_limited err"
    and "do_call e (fst sl) folderID [] 2 = Inr fileList"
    and "NextPageToken fileList = []"
  shows "\<exists>s'. run_job (Suc fuel) e config folderID s = Some s'
     \<and> api_counters s' = (APICallsTotal (stats s) + 1, APICallsSuccess (stats s) + 1, APICallsFailed (stats s))
     \<and> sleeps_of (effects s') = sleeps_of (effects s) @ [baseDelay, 2 * baseDelay]"
proof -
  obtain c where g: "getNext (pool s) = (c, Some sl)" using assms(1) by (cases "getNext (pool s)") auto
  let ?s0 = "s\<lparr>pool := (pool s)\<lparr>current := c\<rparr>\<rparr>"
  obtain s1 where lp: "list_page e config sl folderID [] ?s0 = Stop None s1"
    using list_page_twice_limited_stop[OF assms(2,3,4,5), of config ?s0] by blast
  then have s1: "state_of (list_page e config sl folderID [] ?s0) = s1" by (simp add: state_of_def)
  note p = list_page_twice_limited[OF assms(2,3,4), of config ?s0, unfolded s1]
  have "run_job (Suc fuel) e config folderID s = Some s1"
    by (simp add: run_job_def listFolder_def g lp)
  moreover have "api_counters s1 = (APICallsTotal (stats s) + 1, APICallsSuccess (stats s) + 1, APICallsFailed (stats s))"
    using p by (simp add: api_counters_def)
  moreover have "sleeps_of (effects s1) = sleeps_of (effects s) @ [baseDelay, 2 * baseDelay]"
    using p by (simp add: sleeps_of_append)
  ultimately show ?thesis by blast
qed

text \<open>
  Claim C5, as the code has it. Let the call for one page be answered with a
  rate-limit-class error on its first two invocations and with a page on the third.
  Then that pass of the page loop adds 1 to \<open>APICallsTotal\<close> (the counter is
  incremented once per page, before the retry executor runs, not once per attempt),
  adds 1 to \<open>APICallsSuccess\<close>, leaves \<open>APICallsFailed\<close> alone, and the retry executor
  makes three attempts with two waits, of \<open>baseDelay\<close> and \<open>2 * baseDelay\<close>. When the
  page is the only one of the folder, the worker's job for that folder returns with
  the counters changed by 1, 1 and 0 and with those two waits.
\<close>

theorem rate_limited_twice:
  assumes "wait e (snd sl) folderID pageToken = None"
    and "\<forall>k<2. \<exists>err. do_call e (fst sl) folderID pageToken k = Inl err \<and> rate_limited err"
    and "do_call e (fst sl) folderID pageToken 2 = Inr fileList"
  shows "APICallsTotal (stats (state_of (list_page e config sl folderID pageToken s))) = APICallsTotal (stats s) + 1
     \<and> APICallsSuccess (stats (state_of (list_page e config sl folderID pageToken s))) = APICallsSuccess (stats s) + 1
     \<and> APICallsFailed (stats (state_of (list_page e config sl folderID pageToken s))) = APICallsFailed (stats s)
     \<and> effects (state_of (list_page e config sl folderID pageToken s)) =
         effects s @ [Attempt 0, LogRateLimit baseDelay, Sleep baseDelay, Attempt 1,
                      LogRateLimit (2 * baseDelay), Sleep (2 * baseDelay), Attempt 2]
     \<and> (pageToken = [] \<and> NextPageToken fileList = [] \<and> snd (getNext (pool s)) = Some sl \<longrightarrow>
          (\<exists>s'. run_job (Suc fuel) e config folderID s = Some s'
             \<and> api_counters s' = (APICallsTotal (stats s) + 1, APICallsSuccess (stats s) + 1, APICallsFailed (stats s))
             \<and> sleeps_of (effects s') = sleeps_of (effects s) @ [baseDelay, 2 * baseDelay]))"
proof (intro conjI impI)
  note p = list_page_twice_limited[OF assms, of config s]
  show "APICallsTotal (stats (state_of (list_page e config sl folderID pageToken s))) = APICallsTotal (stats s) + 1"
    and "APICallsSuccess (stats (state_of (list_page e config sl folderID pageToken s))) = APICallsSuccess (stats s) + 1"
    and "APICallsFailed (stats (state_of (list_page e config sl folderID pageToken s))) = APICallsFailed (stats s)"
    and "effects (state_of (list_page e config sl folderID pageToken s)) =
         effects s @ [Attempt 0, LogRateLimit baseDelay, Sleep baseDelay, Attempt 1,
                      LogRateLimit (2 * baseDelay), Sleep (2 * baseDelay), Attempt 2]"
    using p by blast+
next
  assume a: "pageToken = [] \<and> NextPageToken fileList = [] \<and> snd (getNext (pool s)) = Some sl"
  show "\<exists>s'. run_job (Suc fuel) e config folderID s = Some s'
             \<and> api_counters s' = (APICallsTotal (stats s) + 1, APICallsSuccess (stats s) + 1, APICallsFailed (stats s))
             \<and> sleeps_of (effects s') = sleeps_of (effects s) @ [baseDelay, 2 * baseDelay]"
    using run_job_twice_limited[of s sl e folderID fileList fuel config] a assms by simp
qed

lemma env_limited_hyps:
  "wait env_limited (snd (0, 0)) ''X'' [] = None
   \<and> (\<forall>k<2. \<exists>err. do_call env_limited (fst (0, 0)) ''X'' [] k = Inl err \<and> rate_limited err)
   \<and> do_call env_limited (fst (0, 0)) ''X'' [] 2 = Inr \<lparr>Files = [], NextPageToken = []\<rparr>
   \<and> snd (getNext (pool start)) = Some (0, 0)"
  using start_fields
  by (simp add: env_limited_def twice_limited_def rate_limited_def getNext_def pool_of_def go_rem_def)

text \<open>The theorem for the upstream that answers 429 twice, from the initial state.\<close>

theorem rate_limited_twice_witness:
  "APICallsTotal (stats (state_of (list_page env_limited scan_cfg (0, 0) ''X'' [] start))) = 1
   \<and> APICallsSuccess (stats (state_of (list_page env_limited scan_cfg (0, 0) ''X'' [] start))) = 1
   \<and> APICallsFailed (stats (state_of (list_page env_limited scan_cfg (0, 0) ''X'' [] start))) = 0"
proof -
  have h: "wait env_limited (snd (0, 0)) ''X'' [] = None"
    "\<forall>k<2. \<exists>err. do_call env_limited (fst (0, 0)) ''X'' [] k = Inl err \<and> rate_limited err"
    "do_call env_limited (fst (0, 0)) ''X'' [] 2 = Inr \<lparr>Files = [], NextPageToken = []\<rparr>"
    using env_limited_hyps by blast+
  from rate_limited_twice[OF h, of scan_cfg start] show ?thesis
    using start_fields by simp
qed

text \<open>
  Claim C5 as stated fails: for a folder whose only page is answered 429, 429 and then
  successfully, the job ends with \<open>APICallsTotal = 1\<close>, not 3 (with
  \<open>APICallsSuccess = 1\<close>, \<open>APICallsFailed = 0\<close> and waits of 1 and 2 seconds).
\<close>

theorem api_calls_total_counterexample:
  "map_option api_counters (run_job 1 env_limited scan_cfg ''X'' start) = Some (1, 1, 0)
   \<and> map_option (\<lambda>s. sleeps_of (effects s)) (run_job 1 env_limited scan_cfg ''X'' start)
        = Some [1000000000, 2000000000]"
proof -
  have h: "snd (getNext (pool start)) = Some (0, 0)"
    "wait env_limited (snd (0, 0)) ''X'' [] = None"
    "\<forall>k<2. \<exists>err. do_call env_limited (fst (0, 0)) ''X'' [] k = Inl err \<and> rate_limited err"
    "do_call env_limited (fst (0, 0)) ''X'' [] 2 = Inr \<lparr>Files = [], NextPageToken = []\<rparr>"
    "NextPageToken \<lparr>Files = [], NextPageToken = []\<rparr> = []"
    using env_limited_hyps by simp_all
  from run_job_twice_limited[OF h, of 0 scan_cfg] obtain s' where
    "run_job 1 env_limited scan_cfg ''X'' start = Some s'"
    "api_counters s' = (APICallsTotal (stats start) + 1, APICallsSuccess (stats start) + 1, APICallsFailed (stats start))"
    "sleeps_of (effects s') = sleeps_of (effects start) @ [baseDelay, 2 * baseDelay]"
    by auto
  then show ?thesis using start_fields by (simp add: baseDelay_def)
qed

subsection \<open>What a job does to the shared state\<close>

lemma listed_trans:
  "listed c f xs s s1 \<Longrightarrow> listed c f ys s1 s2 \<Longrightarrow> listed c f (xs @ ys) s s2"
  by (simp add: listed_def)

lemma listed_Nil_stats:
  "listed c f [] s (s\<lparr>stats := (stats s)\<lparr>APICallsTotal := x\<rparr>, effects := y\<rparr>)"
  by (simp add: listed_def)

lemma list_page_None:
  assumes "page_of e sl f tok = None"
  shows "\<exists>err s'. list_page e c sl f tok s = Stop (Some err) s' \<and> listed c f [] s s'"
proof (cases "wait e (snd sl) f tok")
  case (Some msg)
  then show ?thesis by (simp add: list_page_def listed_def)
next
  case None
  with assms obtain err where r: "snd (executeWithRetry (do_call e (fst sl) f tok)) = Inl err"
    by (auto simp: page_of_def split: sum.splits)
  show ?thesis using None r
    by (simp add: list_page_def Let_def split_beta listed_def)
qed

lemma list_page_Some:
  assumes "page_of e sl f tok = Some fl"
  shows "\<exists>s'. list_page e c sl f tok s = (if NextPageToken fl = [] then Stop None s' else Next (NextPageToken fl) s')
     \<and> listed c f (Files fl) s s'"
proof -
  from assms have w: "wait e (snd sl) f tok = None"
    by (auto simp: page_of_def split: option.splits)
  with assms have r: "snd (executeWithRetry (do_call e (fst sl) f tok)) = Inr fl"
    by (auto simp: page_of_def split: sum.splits)
  define s3 where "s3 = s\<lparr>stats := (stats s)\<lparr>APICallsTotal := APICallsTotal (stats s) + 1\<rparr>,
       effects := effects s @ fst (executeWithRetry (do_call e (fst sl) f tok)),
       stats := (stats s)\<lparr>APICallsTotal := APICallsTotal (stats s) + 1, APICallsSuccess := APICallsSuccess (stats s) + 1\<rparr>\<rparr>"
  have l0: "listed c f [] s s3" by (simp add: listed_def s3_def)
  have l1: "listed c f (Files fl) s3 (process_files c f (Files fl) s3)" by (rule process_files_listed)
  have l: "listed c f (Files fl) s (process_files c f (Files fl) s3)"
    using listed_trans[OF l0 l1] by simp
  have "list_page e c sl f tok s = (if NextPageToken fl = [] then Stop None (process_files c f (Files fl) s3)
      else Next (NextPageToken fl) (process_files c f (Files fl) s3))"
    using w r by (simp add: list_page_def Let_def split_beta s3_def)
  with l show ?thesis by blast
qed

lemma list_pages_listed:
  "list_pages fuel e c sl f tok s = Some (err, s') \<Longrightarrow> listed c f (listed_items fuel e sl f tok) s s'"
proof (induction fuel arbitrary: tok s)
  case 0
  then show ?case by simp
next
  case (Suc fuel)
  show ?case
  proof (cases "page_of e sl f tok")
    case None
    from list_page_None[OF None, of c s] obtain err1 s1 where
      lp: "list_page e c sl f tok s = Stop (Some err1) s1" and l: "listed c f [] s s1" by blast
    from Suc.prems lp have "s' = s1" by simp
    with l None show ?thesis by simp
  next
    case (Some fl)
    from list_page_Some[OF Some, of c s] obtain s1 where
      lp: "list_page e c sl f tok s = (if NextPageToken fl = [] then Stop None s1 else Next (NextPageToken fl) s1)"
      and l: "listed c f (Files fl) s s1" by blast
    show ?thesis
    proof (cases "NextPageToken fl = []")
      case True
      with Suc.prems lp have "s' = s1" by simp
      with l Some True show ?thesis by simp
    next
      case False
      with Suc.prems lp have "list_pages fuel e c sl f (NextPageToken fl) s1 = Some (err, s')" by simp
      from Suc.IH[OF this] have "listed c f (listed_items fuel e sl f (NextPageToken fl)) s1 s'" .
      from listed_trans[OF l this] Some False show ?thesis by simp
    qed
  qed
qed

lemma listed_pool: "listed c f items (s\<lparr>pool := (pool s)\<lparr>current := cur\<rparr>\<rparr>) s' \<Longrightarrow> listed c f items s s'"
  by (simp add: listed_def)

lemma listed_failed: "listed c f items s s' \<Longrightarrow> listed c f items s (s'\<lparr>stats := (stats s')\<lparr>APICallsFailed := x\<rparr>\<rparr>)"
  by (simp add: listed_def)

lemma run_job_cases:
  assumes "run_job fuel e c f s = Some s'"
  shows "(\<exists>cur. snd (getNext (pool s)) = None \<and> s' = s\<lparr>pool := (pool s)\<lparr>current := cur\<rparr>, panicked := True\<rparr>)
       \<or> (\<exists>sl. snd (getNext (pool s)) = Some sl \<and> listed c f (listed_items fuel e sl f []) s s')"
proof (cases "getNext (pool s)")
  case (Pair cur r)
  show ?thesis
  proof (cases r)
    case None
    with Pair assms show ?thesis by (auto simp: run_job_def listFolder_def)
  next
    case (Some sl)
    let ?s0 = "s\<lparr>pool := (pool s)\<lparr>current := cur\<rparr>\<rparr>"
    from assms Pair Some obtain err s1 where lp: "list_pages fuel e c sl f [] ?s0 = Some (err, s1)"
      and s': "s' = (case err of None \<Rightarrow> s1 | Some x \<Rightarrow> s1\<lparr>stats := (stats s1)\<lparr>APICallsFailed := APICallsFailed (stats s1) + 1\<rparr>\<rparr>)"
      by (auto simp: run_job_def listFolder_def split: option.splits)
    from list_pages_listed[OF lp] have "listed c f (listed_items fuel e sl f []) s s1" by (rule listed_pool)
    then have "listed c f (listed_items fuel e sl f []) s s'"
      unfolding s' by (cases err) (simp_all add: listed_failed)
    with Pair Some show ?thesis by simp
  qed
qed

lemma sink_recv_frame:
  "pool (sink_recv e b r s) = pool s \<and> jobQueue (sink_recv e b r s) = jobQueue s \<and> jobClosed (sink_recv e b r s) = jobClosed s
   \<and> resultQueue (sink_recv e b r s) = resultQueue s \<and> resultClosed (sink_recv e b r s) = resultClosed s
   \<and> wg (sink_recv e b r s) = wg s \<and> senders (sink_recv e b r s) = senders s \<and> main (sink_recv e b r s) = main s
   \<and> workers (sink_recv e b r s) = workers s \<and> panicked (sink_recv e b r s) = panicked s \<and> dbDone (sink_recv e b r s) = dbDone s
   \<and> entered (sink_recv e b r s) = entered s \<and> emitted (sink_recv e b r s) = emitted s
   \<and> FilesProcessed (stats (sink_recv e b r s)) = FilesProcessed (stats s)
   \<and> FoldersQueued (stats (sink_recv e b r s)) = FoldersQueued (stats s)"
  by (simp add: sink_recv_def Let_def flush_frame)


lemma retry_loop_first: "call 0 = Inr fl \<Longrightarrow> executeWithRetry call = ([Attempt 0], Inr fl)"
  by (simp add: executeWithRetry_def retry_loop.simps maxRetries_def)

lemma go_rem_1: "go_rem a 1 = 0"
  by (simp add: go_rem_def)


lemmas eval_defs = start_def init_state_def zero_stats_def totalWorkers_def job_cap_def pool_of_def scan_cfg_def
      run_job_def listFolder_def getNext_def go_rem_1 list_page_def retry_loop_first
      process_file_def mk_record_def folderB_def file1_def file2_def file3_def folder_mime_def Let_def


subsection \<open>The crawl never gets past the wait group\<close>

lemma waiting_init: "waiting c p (init_state c p t)"
  by (simp add: waiting_def init_state_def)

lemma waiting_job:
  assumes w: "waiting c p s" and r: "run_job fuel e c f (s\<lparr>jobQueue := rest\<rparr>) = Some s'"
  shows "waiting c p s'"
proof -
  from run_job_cases[OF r] show ?thesis
  proof
    assume "\<exists>cur. snd (getNext (pool (s\<lparr>jobQueue := rest\<rparr>))) = None
        \<and> s' = s\<lparr>jobQueue := rest\<rparr>\<lparr>pool := (pool (s\<lparr>jobQueue := rest\<rparr>))\<lparr>current := cur\<rparr>, panicked := True\<rparr>"
    then show ?thesis using w by (auto simp: waiting_def)
  next
    assume "\<exists>sl. snd (getNext (pool (s\<lparr>jobQueue := rest\<rparr>))) = Some sl
        \<and> listed c f (listed_items fuel e sl f []) (s\<lparr>jobQueue := rest\<rparr>) s'"
    then obtain items where l: "listed c f items (s\<lparr>jobQueue := rest\<rparr>) s'" by blast
    have "0 \<le> int (length (filter is_folder items))" by simp
    then show ?thesis using w l unfolding waiting_def listed_def
      by simp
  qed
qed

lemma crawl_step_elim:
  assumes "crawl_step e c ev s = Some s'"
  obtains
    (closed) "jobClosed s" "\<not> panicked s"
  | (send) "\<not> panicked s" "\<not> jobClosed s" "ev = EvMainSend" "main s = MainSend" "int (length (jobQueue s)) < job_cap c (pool s)"
      "s' = s\<lparr>jobQueue := jobQueue s @ [TeamDriveID c], entered := entered s @ [TeamDriveID c], main := MainWait\<rparr>"
  | (dispatch) f where "\<not> panicked s" "\<not> jobClosed s" "ev = EvDispatch f" "f \<in> set (senders s)"
      "s' = s\<lparr>jobQueue := jobQueue s @ [f], entered := entered s @ [f], senders := remove1 f (senders s)\<rparr>"
  | (job) i fuel f rest where "\<not> panicked s" "ev = EvJob i fuel" "jobQueue s = f # rest"
      "run_job fuel e c f (s\<lparr>jobQueue := rest\<rparr>) = Some s'"
  | (waitret) "\<not> panicked s" "ev = EvWaitReturns" "main s = MainWait" "wg s = 0"
  | (recv) r rest where "\<not> panicked s" "ev = EvSinkRecv" "resultQueue s = r # rest"
      "s' = sink_recv e (BatchInsertSize c) r (s\<lparr>resultQueue := rest\<rparr>)"
  | (tick) "\<not> panicked s" "ev = EvSinkTick" "s' = flush e s"
  | (sinkclosed) "\<not> panicked s" "ev = EvSinkClosed" "resultClosed s"
  | (finish) "\<not> panicked s" "ev = EvMainDone" "main s = MainRecvDone"
proof (cases ev)
  case EvMainSend
  with assms show ?thesis by (cases "jobClosed s") (auto intro: closed send split: if_splits)
next
  case (EvDispatch f)
  with assms show ?thesis by (cases "jobClosed s") (auto intro: closed dispatch split: if_splits)
next
  case (EvJob i fuel)
  with assms show ?thesis by (cases "jobQueue s") (auto intro: job split: if_splits)
next
  case (EvWorkerExit i)
  with assms show ?thesis by (auto intro: closed split: if_splits)
next
  case EvWaitReturns
  with assms show ?thesis by (auto intro: waitret split: if_splits)
next
  case EvSinkRecv
  with assms show ?thesis by (cases "resultQueue s") (auto intro: recv split: if_splits)
next
  case EvSinkTick
  with assms show ?thesis by (auto intro: tick split: if_splits)
next
  case EvSinkClosed
  with assms show ?thesis by (auto intro: sinkclosed split: if_splits)
next
  case EvMainDone
  with assms show ?thesis by (auto intro: finish split: if_splits)
qed

lemma waiting_step:
  assumes w: "waiting c p s" and st: "crawl_step e c ev s = Some s'"
  shows "waiting c p s'"
  using st
proof (cases rule: crawl_step_elim)
  case closed
  with w show ?thesis by (simp add: waiting_def)
next
  case send
  have tw: "totalWorkers c (pool s) = totalWorkers c p" using w by (simp add: waiting_def totalWorkers_def)
  have "0 \<le> int (length (jobQueue s))" by simp
  with send(5) have "0 < totalWorkers c p" unfolding job_cap_def tw by linarith
  with w send(6) show ?thesis by (simp add: waiting_def)
next
  case (dispatch f)
  with w show ?thesis by (simp add: waiting_def)
next
  case (job i fuel f rest)
  from w job(4) show ?thesis by (rule waiting_job)
next
  case waitret
  from w waitret(3) have "0 < totalWorkers c p" "totalWorkers c p \<le> wg s" by (simp_all add: waiting_def)
  with waitret(4) have False by linarith
  then show ?thesis ..
next
  case (recv r rest)
  with w show ?thesis by (simp add: waiting_def sink_recv_frame)
next
  case tick
  with w show ?thesis by (simp add: waiting_def flush_frame)
next
  case sinkclosed
  with w show ?thesis by (simp add: waiting_def)
next
  case finish
  with w show ?thesis by (simp add: waiting_def)
qed

lemma waiting_run: "waiting c p s \<Longrightarrow> crawl_run e c evs s = Some s' \<Longrightarrow> waiting c p s'"
proof (induction evs arbitrary: s)
  case Nil
  then show ?case by simp
next
  case (Cons ev evs)
  from Cons.prems(2) obtain s1 where s1: "crawl_step e c ev s = Some s1" "crawl_run e c evs s1 = Some s'"
    by (auto split: option.splits)
  from waiting_step[OF Cons.prems(1) s1(1)] Cons.IH s1(2) show ?case by blast
qed

text \<open>
  Claim C1 fails on the code. Nothing closes the job queue, so no worker leaves its
  \<open>range\<close> loop and runs its deferred \<open>wg.Done()\<close>; the counter of the wait group,
  raised once for every worker and once for every folder found, never goes down. In
  every state that a crawl reaches, whatever the configuration, the pool, the upstream
  and the schedule: \<open>ScanTeamDrive\<close> has not returned and has not got past
  \<open>wg.Wait()\<close>, neither queue is closed, the sink has not made its final flush, no
  worker has exited, and while \<open>ScanTeamDrive\<close> waits the counter is positive.
\<close>

theorem ScanTeamDrive_never_returns:
  assumes "crawl_run e config evs (init_state config p t) = Some s"
  shows "main s \<noteq> MainReturned \<and> main s \<noteq> MainRecvDone \<and> \<not> jobClosed s \<and> \<not> resultClosed s
    \<and> \<not> dbDone s \<and> WExited \<notin> set (workers s) \<and> (main s = MainWait \<longrightarrow> 0 < wg s)"
proof -
  have "waiting config p s" using waiting_run[OF waiting_init assms] .
  then show ?thesis by (auto simp: waiting_def)
qed

text \<open>
  The theorem for one worker and a root folder with an empty listing: after the root has
  been listed the job queue is empty and nothing is on its way to it, and
  \<open>ScanTeamDrive\<close> still waits on a positive counter, with the result queue open.
\<close>

theorem ScanTeamDrive_never_returns_witness:
  "\<exists>s. crawl_run env_ok scan_cfg [EvMainSend, EvJob 0 1, EvSinkTick] start = Some s
     \<and> jobQueue s = [] \<and> senders s = [] \<and> main s = MainWait \<and> 0 < wg s \<and> \<not> resultClosed s"
proof -
  have "map_option (\<lambda>s. (jobQueue s, senders s, main s))
      (crawl_run env_ok scan_cfg [EvMainSend, EvJob 0 1, EvSinkTick] start) = Some ([], [], MainWait)"
    by (simp add: eval_defs env_ok_def flush_def)
  then obtain s where
    run: "crawl_run env_ok scan_cfg [EvMainSend, EvJob 0 1, EvSinkTick] start = Some s"
    and f: "jobQueue s = []" "senders s = []" "main s = MainWait"
    by auto
  from ScanTeamDrive_never_returns[OF run[unfolded start_def]] f(3)
  have "0 < wg s" "\<not> resultClosed s" by blast+
  with run f show ?thesis by blast
qed

subsection \<open>What enters the job queue, and what the counters count\<close>

lemma crawl_step_waiting_elim:
  assumes "waiting c p s" "crawl_step e c ev s = Some s'"
  obtains
    (send) "\<not> panicked s" "ev = EvMainSend" "main s = MainSend" "int (length (jobQueue s)) < job_cap c (pool s)"
      "s' = s\<lparr>jobQueue := jobQueue s @ [TeamDriveID c], entered := entered s @ [TeamDriveID c], main := MainWait\<rparr>"
  | (dispatch) f where "\<not> panicked s" "ev = EvDispatch f" "f \<in> set (senders s)"
      "s' = s\<lparr>jobQueue := jobQueue s @ [f], entered := entered s @ [f], senders := remove1 f (senders s)\<rparr>"
  | (job) i fuel f rest where "\<not> panicked s" "ev = EvJob i fuel" "jobQueue s = f # rest"
      "run_job fuel e c f (s\<lparr>jobQueue := rest\<rparr>) = Some s'"
  | (recv) r rest where "\<not> panicked s" "ev = EvSinkRecv" "resultQueue s = r # rest"
      "s' = sink_recv e (BatchInsertSize c) r (s\<lparr>resultQueue := rest\<rparr>)"
  | (tick) "\<not> panicked s" "ev = EvSinkTick" "s' = flush e s"
  using assms(2)
proof (cases rule: crawl_step_elim)
  case closed
  with assms(1) show ?thesis by (simp add: waiting_def)
next
  case send
  then show ?thesis by (intro that(1))
next
  case (dispatch f)
  then show ?thesis by (intro that(2))
next
  case (job i fuel f rest)
  then show ?thesis by (intro that(3))
next
  case waitret
  from assms(1) waitret(3) have "0 < totalWorkers c p" "totalWorkers c p \<le> wg s" by (simp_all add: waiting_def)
  with waitret(4) have False by linarith
  then show ?thesis ..
next
  case (recv r rest)
  then show ?thesis by (intro that(4))
next
  case tick
  then show ?thesis by (intro that(5))
next
  case sinkclosed
  with assms(1) show ?thesis by (simp add: waiting_def)
next
  case finish
  with assms(1) show ?thesis by (simp add: waiting_def)
qed

lemma folder_ids_records:
  "map ID (filter IsFolder (map (mk_record c f) items)) = map Id (filter is_folder items)"
  by (induction items) (simp_all add: mk_record_def is_folder_def)

lemma listed_folder_ids:
  "listed c f items s s' \<Longrightarrow> folder_ids s' = folder_ids s @ map Id (filter is_folder items)"
  by (simp add: listed_def folder_ids_def folder_ids_records)

lemma accounted_init: "accounted c (init_state c p t)"
  by (simp add: accounted_def init_state_def zero_stats_def folder_ids_def)

lemma accounted_job:
  assumes a: "accounted c s" and r: "run_job fuel e c f (s\<lparr>jobQueue := rest\<rparr>) = Some s'"
  shows "accounted c s'"
proof -
  from run_job_cases[OF r] show ?thesis
  proof
    assume "\<exists>cur. snd (getNext (pool (s\<lparr>jobQueue := rest\<rparr>))) = None
        \<and> s' = s\<lparr>jobQueue := rest\<rparr>\<lparr>pool := (pool (s\<lparr>jobQueue := rest\<rparr>))\<lparr>current := cur\<rparr>, panicked := True\<rparr>"
    then show ?thesis using a by (auto simp: accounted_def folder_ids_def)
  next
    assume "\<exists>sl. snd (getNext (pool (s\<lparr>jobQueue := rest\<rparr>))) = Some sl
        \<and> listed c f (listed_items fuel e sl f []) (s\<lparr>jobQueue := rest\<rparr>) s'"
    then obtain items where l: "listed c f items (s\<lparr>jobQueue := rest\<rparr>) s'" by blast
    have fi: "folder_ids s' = folder_ids s @ map Id (filter is_folder items)"
      using listed_folder_ids[OF l] by (simp add: folder_ids_def)
    have e: "entered s' = entered s" "senders s' = senders s @ map Id (filter is_folder items)"
      "main s' = main s" "emitted s' = emitted s @ map (mk_record c f) items"
      "FilesProcessed (stats s') = FilesProcessed (stats s) + int (length items)"
      "FoldersQueued (stats s') = FoldersQueued (stats s) + int (length (filter is_folder items))"
      using l by (simp_all add: listed_def)
    show ?thesis using a unfolding accounted_def fi e by simp
  qed
qed

lemma accounted_step:
  assumes w: "waiting c p s" and a: "accounted c s" and st: "crawl_step e c ev s = Some s'"
  shows "accounted c s'"
  using w st
proof (cases rule: crawl_step_waiting_elim)
  case send
  with a show ?thesis by (simp add: accounted_def folder_ids_def)
next
  case (dispatch f)
  have "add_mset f (mset (remove1 f (senders s))) = mset (senders s)"
    using dispatch(3) by simp
  then have "mset (entered s @ [f]) + mset (remove1 f (senders s)) = mset (entered s) + mset (senders s)"
    by simp
  with a dispatch(4) show ?thesis by (simp add: accounted_def folder_ids_def)
next
  case (job i fuel f rest)
  from a job(4) show ?thesis by (rule accounted_job)
next
  case (recv r rest)
  with a show ?thesis by (simp add: accounted_def folder_ids_def sink_recv_frame)
next
  case tick
  with a show ?thesis by (simp add: accounted_def folder_ids_def flush_frame)
qed

lemma accounted_run:
  "waiting c p s \<Longrightarrow> accounted c s \<Longrightarrow> crawl_run e c evs s = Some s' \<Longrightarrow> accounted c s'"
proof (induction evs arbitrary: s)
  case Nil
  then show ?case by simp
next
  case (Cons ev evs)
  from Cons.prems(3) obtain s1 where s1: "crawl_step e c ev s = Some s1" "crawl_run e c evs s1 = Some s'"
    by (auto split: option.splits)
  from Cons.IH[OF waiting_step[OF Cons.prems(1) s1(1)] accounted_step[OF Cons.prems(1,2) s1(1)] s1(2)]
  show ?case .
qed

lemma distinct_sub_mset:
  assumes sub: "mset xs \<subseteq># mset ys" and d: "distinct ys"
  shows "distinct xs"
proof -
  have le1: "count (mset xs) a \<le> 1" for a
  proof -
    have "count (mset xs) a \<le> count (mset ys) a" using sub by (rule mset_subset_eq_count)
    also have "count (mset ys) a \<le> 1" using d by (simp add: distinct_count_atmost_1)
    finally show ?thesis .
  qed
  have "count (mset xs) a = (if a \<in> set xs then 1 else 0)" for a
  proof (cases "a \<in> set xs")
    case True
    then have "a \<in># mset xs" by simp
    then have "0 < count (mset xs) a" by (simp only: count_greater_zero_iff)
    with le1[of a] have "count (mset xs) a = 1" by linarith
    with True show ?thesis by simp
  next
    case False
    then show ?thesis by simp
  qed
  then show ?thesis by (simp add: distinct_count_atmost_1)
qed

text \<open>
  Claim C2, as the code has it. In every state that a crawl reaches, the ids that have
  entered the job queue, together with those on their way to it, are the root (once it
  has been sent) and one id for every folder record emitted so far, with
  multiplicity: the crawl keeps no set of the folders it has seen. So no id enters the
  queue twice as long as the ids of the emitted folder records are distinct and differ
  from the root, that is, as long as the upstream reports every folder once. And a job
  that returns has emitted one record for every child that the upstream reported in
  the pages the job obtained, and has started one send for every folder among them.
\<close>

theorem folders_enqueued:
  assumes "crawl_run e config evs (init_state config p t) = Some s"
  shows "mset (entered s) + mset (senders s)
           = (if main s = MainSend then {#} else {#TeamDriveID config#}) + mset (folder_ids s)
    \<and> (distinct (TeamDriveID config # folder_ids s) \<longrightarrow> distinct (entered s))
    \<and> (\<forall>fuel folderID s1 s2 sl.
          run_job fuel e config folderID s1 = Some s2 \<and> snd (getNext (pool s1)) = Some sl \<longrightarrow>
            emitted s2 = emitted s1 @ map (mk_record config folderID) (listed_items fuel e sl folderID [])
            \<and> senders s2 = senders s1 @ map Id (filter is_folder (listed_items fuel e sl folderID []))
            \<and> entered s2 = entered s1)"
proof (intro conjI allI impI)
  have acc: "accounted config s"
    using accounted_run[OF waiting_init accounted_init assms] .
  then show eq: "mset (entered s) + mset (senders s)
           = (if main s = MainSend then {#} else {#TeamDriveID config#}) + mset (folder_ids s)"
    by (simp add: accounted_def)
  assume d: "distinct (TeamDriveID config # folder_ids s)"
  have "mset (entered s) \<subseteq># mset (entered s) + mset (senders s)" by simp
  also have "\<dots> \<subseteq># mset (TeamDriveID config # folder_ids s)" unfolding eq by simp
  finally show "distinct (entered s)" using d by (rule distinct_sub_mset)
next
  fix fuel folderID s1 s2 sl
  assume h: "run_job fuel e config folderID s1 = Some s2 \<and> snd (getNext (pool s1)) = Some sl"
  with run_job_cases[of fuel e config folderID s1 s2]
  have "listed config folderID (listed_items fuel e sl folderID []) s1 s2" by auto
  then show "emitted s2 = emitted s1 @ map (mk_record config folderID) (listed_items fuel e sl folderID [])"
    and "senders s2 = senders s1 @ map Id (filter is_folder (listed_items fuel e sl folderID []))"
    and "entered s2 = entered s1"
    by (simp_all add: listed_def)
qed

lemma tree_run_fields:
  "map_option (\<lambda>s. (entered s, folder_ids s, main s, jobQueue s, senders s, crawl_counters s, emitted s))
     (crawl_run env_tree scan_cfg [EvMainSend, EvJob 0 1, EvDispatch ''B'', EvJob 0 1] start)
   = Some ([''A'', ''B''], [''B''], MainWait, [], [], (4, 1), recsA @ recsB)"
  by (simp add: eval_defs env_tree_def folder_ids_def crawl_counters_def recsA_def recsB_def)

text \<open>The theorem for the crawl of the tree \<open>A\<close>, \<open>B\<close>: the ids \<open>A\<close> and \<open>B\<close> enter once each.\<close>

theorem folders_enqueued_witness:
  "\<exists>s. crawl_run env_tree scan_cfg [EvMainSend, EvJob 0 1, EvDispatch ''B'', EvJob 0 1] start = Some s
     \<and> entered s = [''A'', ''B''] \<and> distinct (entered s)"
proof -
  from tree_run_fields obtain s where
    run: "crawl_run env_tree scan_cfg [EvMainSend, EvJob 0 1, EvDispatch ''B'', EvJob 0 1] start = Some s"
    and f: "entered s = [''A'', ''B'']" "folder_ids s = [''B'']"
    by auto
  have "distinct (TeamDriveID scan_cfg # folder_ids s)" using f by (simp add: scan_cfg_def)
  with folders_enqueued[OF run[unfolded start_def]] have "distinct (entered s)" by blast
  with run f show ?thesis by blast
qed

text \<open>
  Claim C2 as stated fails when the upstream reports a folder twice: with the folder
  \<open>B\<close> twice in the listing of the root \<open>A\<close>, the id \<open>B\<close> enters the job queue twice.
\<close>

theorem duplicate_folder_counterexample:
  "map_option entered (crawl_run env_dup scan_cfg [EvMainSend, EvJob 0 1, EvDispatch ''B'', EvDispatch ''B''] start)
     = Some [''A'', ''B'', ''B'']"
  by (simp add: eval_defs env_dup_def)


lemma getNext_single: "services q = [0] \<Longrightarrow> limiters q = [0] \<Longrightarrow> snd (getNext q) = Some (0, 0)"
  by (simp add: getNext_def go_rem_1 Let_def)

lemma tree_items:
  "listed_items (Suc n) env_tree (0, 0) ''A'' [] = [file1, file2, folderB]"
  "listed_items (Suc n) env_tree (0, 0) ''B'' [] = [file3]"
  by (simp_all add: page_of_def env_tree_def retry_loop_first)

lemma run_job_fuel:
  assumes "run_job fuel e c f s = Some s'" "snd (getNext (pool s)) = Some sl"
  shows "\<exists>n. fuel = Suc n"
proof (cases fuel)
  case 0
  with assms show ?thesis
    by (cases "getNext (pool s)") (simp add: run_job_def listFolder_def)
next
  case (Suc n)
  then show ?thesis by blast
qed

lemma tree_job:
  assumes p: "services (pool s) = [0]" "limiters (pool s) = [0]"
    and r: "run_job fuel env_tree scan_cfg f s = Some s'"
  shows "(f = ''A'' \<longrightarrow> listed scan_cfg f [file1, file2, folderB] s s')
       \<and> (f = ''B'' \<longrightarrow> listed scan_cfg f [file3] s s')"
proof -
  have g: "snd (getNext (pool s)) = Some (0, 0)" using p by (rule getNext_single)
  from run_job_fuel[OF r g] obtain n where n: "fuel = Suc n" by blast
  from run_job_cases[OF r] g have "listed scan_cfg f (listed_items fuel env_tree (0, 0) f []) s s'"
    by auto
  then show ?thesis unfolding n by (auto simp del: listed_items.simps simp add: tree_items)
qed

lemma tree_folders:
  "map Id (filter is_folder [file1, file2, folderB]) = [''B'']"
  "map Id (filter is_folder [file3]) = []"
  by (simp_all add: is_folder_def file1_def file2_def file3_def folderB_def folder_mime_def)

lemma listed_fields:
  "listed c f items s s' \<Longrightarrow>
   emitted s' = emitted s @ map (mk_record c f) items
   \<and> senders s' = senders s @ map Id (filter is_folder items)
   \<and> jobQueue s' = jobQueue s \<and> main s' = main s \<and> panicked s' = panicked s
   \<and> services (pool s') = services (pool s) \<and> limiters (pool s') = limiters (pool s)"
  by (simp add: listed_def)

lemma tree_phase_init: "tree_phase start"
  by (simp add: tree_phase_def start_def init_state_def pool_of_def totalWorkers_def scan_cfg_def)

lemma tree_phase_step:
  assumes w: "waiting scan_cfg q s" and t: "tree_phase s" and st: "crawl_step env_tree scan_cfg ev s = Some s'"
  shows "tree_phase s'"
  using w st
proof (cases rule: crawl_step_waiting_elim)
  case send
  with t show ?thesis by (simp add: tree_phase_def scan_cfg_def)
next
  case (dispatch f)
  with t show ?thesis by (auto simp: tree_phase_def)
next
  case (job i fuel f rest)
  let ?s0 = "s\<lparr>jobQueue := rest\<rparr>"
  from t have p: "services (pool ?s0) = [0]" "limiters (pool ?s0) = [0]" by (simp_all add: tree_phase_def)
  note tj = tree_job[OF p job(4)]
  from t job(3) consider (a) "f = ''A''" "rest = []" "senders s = []" "emitted s = []" "main s \<noteq> MainSend"
    | (b) "f = ''B''" "rest = []" "senders s = []" "emitted s = recsA" "main s \<noteq> MainSend"
    by (auto simp: tree_phase_def)
  then show ?thesis
  proof cases
    case a
    with tj have "listed scan_cfg ''A'' [file1, file2, folderB] ?s0 s'" by simp
    from listed_fields[OF this, unfolded tree_folders] a t show ?thesis
      by (simp add: tree_phase_def recsA_def)
  next
    case b
    with tj have "listed scan_cfg ''B'' [file3] ?s0 s'" by simp
    from listed_fields[OF this, unfolded tree_folders] b t show ?thesis
      by (simp add: tree_phase_def recsB_def)
  qed
next
  case (recv r rest)
  with t show ?thesis by (simp add: tree_phase_def sink_recv_frame)
next
  case tick
  with t show ?thesis by (simp add: tree_phase_def flush_frame)
qed

lemma tree_phase_run:
  "waiting scan_cfg q s \<Longrightarrow> tree_phase s \<Longrightarrow> crawl_run env_tree scan_cfg evs s = Some s' \<Longrightarrow> tree_phase s'"
proof (induction evs arbitrary: s)
  case Nil
  then show ?case by simp
next
  case (Cons ev evs)
  from Cons.prems(3) obtain s1 where s1: "crawl_step env_tree scan_cfg ev s = Some s1"
    "crawl_run env_tree scan_cfg evs s1 = Some s'"
    by (auto split: option.splits)
  from Cons.IH[OF waiting_step[OF Cons.prems(1) s1(1)] tree_phase_step[OF Cons.prems(1,2) s1(1)] s1(2)]
  show ?case .
qed

lemma tree_records:
  "map (\<lambda>r. (ID r, ParentID r, IsFolder r)) (recsA @ recsB)
     = [(''f1'', ''A'', False), (''f2'', ''A'', False), (''B'', ''A'', True), (''f3'', ''B'', False)]"
  by (simp add: recsA_def recsB_def mk_record_def file1_def file2_def file3_def folderB_def folder_mime_def)

text \<open>
  Claim C6, as the code has it. In every state that a crawl reaches, \<open>FilesProcessed\<close>
  is the number of records emitted, folders included, and \<open>FoldersQueued\<close> is the
  number of folder records among them. For the root \<open>A\<close> with two files and the
  subfolder \<open>B\<close>, which has one file, crawled with one worker: whatever the schedule,
  once the root has been sent, the job queue is empty and nothing is on its way to it,
  \<open>FilesProcessed\<close> is 4 and \<open>FoldersQueued\<close> is 1, and the records emitted are the two
  files of \<open>A\<close>, the folder \<open>B\<close> (with parent \<open>A\<close>) and the file of \<open>B\<close> (with parent
  \<open>B\<close>).
\<close>

theorem files_processed_counts:
  "(crawl_run e config evs (init_state config p t) = Some s \<longrightarrow>
      FilesProcessed (stats s) = int (length (emitted s))
      \<and> FoldersQueued (stats s) = int (length (filter IsFolder (emitted s))))
   \<and> (crawl_run env_tree scan_cfg evs' start = Some s' \<and> main s' \<noteq> MainSend \<and> jobQueue s' = [] \<and> senders s' = [] \<longrightarrow>
      FilesProcessed (stats s') = 4 \<and> FoldersQueued (stats s') = 1
      \<and> map (\<lambda>r. (ID r, ParentID r, IsFolder r)) (emitted s')
          = [(''f1'', ''A'', False), (''f2'', ''A'', False), (''B'', ''A'', True), (''f3'', ''B'', False)])"
proof (intro conjI impI)
  assume run: "crawl_run e config evs (init_state config p t) = Some s"
  have "accounted config s" using accounted_run[OF waiting_init accounted_init run] .
  then show "FilesProcessed (stats s) = int (length (emitted s))"
    and "FoldersQueued (stats s) = int (length (filter IsFolder (emitted s)))"
    by (simp_all add: accounted_def folder_ids_def)
next
  assume h: "crawl_run env_tree scan_cfg evs' start = Some s' \<and> main s' \<noteq> MainSend \<and> jobQueue s' = [] \<and> senders s' = []"
  then have run: "crawl_run env_tree scan_cfg evs' (init_state scan_cfg (pool_of 1) Map.empty) = Some s'"
    by (simp add: start_def)
  have acc: "accounted scan_cfg s'" using accounted_run[OF waiting_init accounted_init run] .
  have w0: "waiting scan_cfg (pool_of 1) start" unfolding start_def by (rule waiting_init)
  have "tree_phase s'" using tree_phase_run[OF w0 tree_phase_init] h by blast
  with h have em: "emitted s' = recsA @ recsB" by (auto simp: tree_phase_def)
  have len: "length (recsA @ recsB) = 4" "length (filter IsFolder (recsA @ recsB)) = 1"
    by (simp_all add: recsA_def recsB_def mk_record_def file1_def file2_def file3_def folderB_def folder_mime_def)
  from acc show "FilesProcessed (stats s') = 4" and "FoldersQueued (stats s') = 1"
    unfolding accounted_def folder_ids_def em using len by simp_all
  show "map (\<lambda>r. (ID r, ParentID r, IsFolder r)) (emitted s')
          = [(''f1'', ''A'', False), (''f2'', ''A'', False), (''B'', ''A'', True), (''f3'', ''B'', False)]"
    unfolding em by (rule tree_records)
qed

text \<open>The theorem for the schedule that lists \<open>A\<close>, delivers \<open>B\<close> and lists \<open>B\<close>.\<close>

theorem files_processed_counts_witness:
  "\<exists>s. crawl_run env_tree scan_cfg [EvMainSend, EvJob 0 1, EvDispatch ''B'', EvJob 0 1] start = Some s
     \<and> FilesProcessed (stats s) = 4 \<and> FoldersQueued (stats s) = 1 \<and> length (emitted s) = 4"
proof -
  from tree_run_fields obtain s where
    run: "crawl_run env_tree scan_cfg [EvMainSend, EvJob 0 1, EvDispatch ''B'', EvJob 0 1] start = Some s"
    and f: "main s = MainWait" "jobQueue s = []" "senders s = []"
    by auto
  note t = files_processed_counts[of env_tree scan_cfg "[EvMainSend, EvJob 0 1, EvDispatch ''B'', EvJob 0 1]"
      "pool_of 1" Map.empty s "[EvMainSend, EvJob 0 1, EvDispatch ''B'', EvJob 0 1]" s]
  from t run f have c: "FilesProcessed (stats s) = 4" "FoldersQueued (stats s) = 1" by simp_all
  from t run have "FilesProcessed (stats s) = int (length (emitted s))" by (simp add: start_def)
  with c have "length (emitted s) = 4" by simp
  with run c show ?thesis by blast
qed

text \<open>
  Claim C6 as stated fails on its own scenario: when both folders have been listed,
  \<open>FilesProcessed\<close> is 4, not 3, because the record of the folder \<open>B\<close> is counted too.
\<close>

theorem files_processed_counterexample:
  "map_option crawl_counters
     (crawl_run env_tree scan_cfg [EvMainSend, EvJob 0 1, EvDispatch ''B'', EvJob 0 1] start) = Some (4, 1)
   \<and> map_option (\<lambda>s. map (\<lambda>r. (ID r, IsFolder r)) (emitted s))
     (crawl_run env_tree scan_cfg [EvMainSend, EvJob 0 1, EvDispatch ''B'', EvJob 0 1] start)
      = Some [(''f1'', False), (''f2'', False), (''B'', True), (''f3'', False)]"
  by (simp add: eval_defs env_tree_def crawl_counters_def)


end
